theory Spec2Isabelle
  imports Complex_Main
begin

section \<open>Numbers, vectors and the static configuration\<close>

text \<open>
  The script \<^verbatim>\<open>main.js\<close> builds a carousel of three model instances and reacts to
  mouse, click, timer, frame and tween events. Numbers of the script are modelled as
  rationals with exact arithmetic, times as integers (milliseconds). The rendering
  engine, the asset loader, the ray caster and the tween library are outside the script:
  what they report (a loaded asset, the objects along the cursor ray, a tween's progress)
  is the payload of an event. The listing has one closing brace too many after
  \<^verbatim>\<open>onMouseClick\<close>; the functions are modelled as they are written.
\<close>

type_synonym vec = "rat \<times> rat \<times> rat"

text \<open>\<^verbatim>\<open>a || b\<close> on numbers: zero is falsy.\<close>

definition js_or :: "rat \<Rightarrow> rat \<Rightarrow> rat" where
  "js_or a b = (if a = 0 then b else a)"

text \<open>A value handed to the tween library: a number, or what an absent field gives.\<close>

datatype jnum = Undefined | NaN | Num rat

definition MODEL_SCALE :: rat where
  "MODEL_SCALE = 3"

definition MODEL_PATHS :: "string list" where
  "MODEL_PATHS = [''./rockbodytest.glb'', ''./shintest.glb'', ''./kidsynth.glb'']"

record model_position =
  mp_name :: string
  mp_position :: vec
  mp_rotation :: vec
  mp_scale :: rat

definition MODEL_POSITIONS :: "model_position list" where
  "MODEL_POSITIONS =
    [\<lparr>mp_name = ''rockbody'', mp_position = (-8, 0, 0),
      mp_rotation = (-1/2, 19/10, 3/2), mp_scale = MODEL_SCALE\<rparr>,
     \<lparr>mp_name = ''shin'', mp_position = (3, 1, -7),
      mp_rotation = (1/2, -9/20, 1), mp_scale = MODEL_SCALE\<rparr>,
     \<lparr>mp_name = ''kidsynth'', mp_position = (7, 0, 9),
      mp_rotation = (0, 19/5, 0), mp_scale = MODEL_SCALE\<rparr>]"

text \<open>
  The table of \<^verbatim>\<open>onModelClick\<close> and its lookup \<^verbatim>\<open>modelPages[modelName] || 'index'\<close>.
  The table is an object literal, so a name that is no key of the table but names a
  member that every object inherits from \<^verbatim>\<open>Object.prototype\<close> finds that member: a
  function, or the prototype itself for \<^verbatim>\<open>__proto__\<close>, which is truthy and is not a
  page of the table. Only a name that finds nothing gives \<^verbatim>\<open>'index'\<close>. The template
  literal \<^verbatim>\<open>`${pageName}.html`\<close> is the page followed by \<^verbatim>\<open>.html\<close>, or the engine's
  text of the inherited member followed by \<^verbatim>\<open>.html\<close>; that text is kept symbolic.
\<close>

definition modelPages :: "(string \<times> string) list" where
  "modelPages =
    [(''rockbody'', ''LI1-new''), (''shin'', ''Shinkansen-new''), (''kidsynth'', ''Kid-Synth-new'')]"

definition Object_prototype :: "string list" where
  "Object_prototype =
    [''constructor'', ''hasOwnProperty'', ''isPrototypeOf'', ''propertyIsEnumerable'',
     ''toLocaleString'', ''toString'', ''valueOf'', ''__proto__'',
     ''__defineGetter__'', ''__defineSetter__'', ''__lookupGetter__'', ''__lookupSetter__'']"

datatype page = Page string | Inherited string

definition pageName :: "string \<Rightarrow> page" where
  "pageName modelName =
    (case map_of modelPages modelName of
       Some p \<Rightarrow> (if p = [] then Page ''index'' else Page p)
     | None \<Rightarrow> (if modelName \<in> set Object_prototype then Inherited modelName else Page ''index''))"

datatype href = Href string | HrefOfInherited string

fun html :: "page \<Rightarrow> href" where
  "html (Page p) = Href (p @ ''.html'')"
| "html (Inherited k) = HrefOfInherited k"

text \<open>Decimal digits of an index, for the template literals that name the objects.\<close>

fun string_of_nat :: "nat \<Rightarrow> string" where
  "string_of_nat n =
    (if n < 10 then [char_of (48 + n)]
     else string_of_nat (n div 10) @ [char_of (48 + n mod 10)])"

declare string_of_nat.simps [simp del]

definition lower_char :: "char \<Rightarrow> char" where
  "lower_char c =
    (if 65 \<le> (of_char c :: nat) \<and> (of_char c :: nat) \<le> 90
     then char_of ((of_char c :: nat) + 32) else c)"

definition toLowerCase :: "string \<Rightarrow> string" where
  "toLowerCase str = map lower_char str"

section \<open>The scene graph\<close>

text \<open>
  Scene objects live in a store: a list of nodes, an object's identity being its index.
  Each node owns its position, rotation and scale vectors (the engine creates them with
  the object and never shares them). The fields \<open>ud_*\<close> are the entries of
  \<^verbatim>\<open>userData\<close> the script reads or writes; \<open>None\<close> is an absent entry. The plain
  objects \<^verbatim>\<open>{x, y, z}\<close> that the script allocates are kept in a second store, so that a
  recorded original is a reference, as in the script.
\<close>

record node =
  n_name :: string
  n_isMesh :: bool
  n_parent :: "nat option"
  n_children :: "nat list"
  n_position :: vec
  n_rotation :: vec
  n_scale :: vec
  n_castShadow :: bool
  n_receiveShadow :: bool
  ud_name :: "string option"
  ud_originalScale :: "rat option"
  ud_originalPosition :: "nat option"
  ud_originalRotation :: "nat option"

definition new_object :: node where
  "new_object =
    \<lparr>n_name = [], n_isMesh = False, n_parent = None, n_children = [],
     n_position = (0, 0, 0), n_rotation = (0, 0, 0), n_scale = (1, 1, 1),
     n_castShadow = False, n_receiveShadow = False,
     ud_name = None, ud_originalScale = None,
     ud_originalPosition = None, ud_originalRotation = None\<rparr>"

text \<open>
  A loaded asset (\<^verbatim>\<open>gltf.scene\<close>) is a tree of objects. Its nodes carry none of the
  \<^verbatim>\<open>userData\<close> entries of the script.
\<close>

datatype tmpl =
  Tmpl (t_name: string) (t_isMesh: bool) (t_position: vec) (t_rotation: vec) (t_scale: vec)
    (t_children: "tmpl list")

definition upd :: "nat \<Rightarrow> (node \<Rightarrow> node) \<Rightarrow> node list \<Rightarrow> node list" where
  "upd i f h = h[i := f (h ! i)]"

text \<open>
  \<^verbatim>\<open>clone()\<close> copies a tree into fresh objects: the copy of the root is allocated
  first, each child is cloned and added to it in turn.
\<close>

fun clone_tree :: "nat option \<Rightarrow> tmpl \<Rightarrow> node list \<Rightarrow> node list"
  and clone_forest :: "nat \<Rightarrow> tmpl list \<Rightarrow> node list \<Rightarrow> node list" where
  "clone_tree p (Tmpl nm m pos rot sc cs) h =
    clone_forest (length h) cs
      (h @ [new_object\<lparr>n_name := nm, n_isMesh := m, n_parent := p,
                       n_position := pos, n_rotation := rot, n_scale := sc\<rparr>])"
| "clone_forest r [] h = h"
| "clone_forest r (c # cs) h =
    clone_forest r cs
      (upd r (\<lambda>n. n\<lparr>n_children := n_children n @ [length h]\<rparr>) (clone_tree (Some r) c h))"

text \<open>
  \<^verbatim>\<open>model.traverse\<close> visits the clone and its descendants, which are the objects
  allocated from the clone's root on.
\<close>

definition tag_shadows :: "node \<Rightarrow> node" where
  "tag_shadows n = (if n_isMesh n then n\<lparr>n_castShadow := True, n_receiveShadow := True\<rparr> else n)"

definition traverse_from :: "nat \<Rightarrow> node list \<Rightarrow> node list" where
  "traverse_from r h = take r h @ map tag_shadows (drop r h)"

section \<open>Program state\<close>

record tween =
  tw_target :: nat
  tw_x :: jnum
  tw_y :: jnum
  tw_z :: jnum
  tw_duration :: rat
  tw_ease :: "string option"
  tw_onComplete :: bool

datatype log = LogCreating | LogCreated nat vec vec | LogFPS | ErrThree

datatype error = TypeError

record state =
  nodes :: "node list"
  plain :: "vec list"
  objects :: "nat list"
  models :: "tmpl option list"
  loadPending :: "bool list"
  loadedCount :: nat
  currentHoveredModel :: "nat option"
  hoveredObject :: "nat option"
  isHovering :: bool
  clickCount :: nat
  clickTimer :: "int option"
  lastClickTime :: int
  location :: "href option"
  windowsOpened :: nat
  pointerCursor :: bool
  tweens :: "tween list"
  console :: "log list"

definition scene_id :: nat where
  "scene_id = 0"

definition carousel_id :: nat where
  "carousel_id = 1"

definition init :: state where
  "init =
    \<lparr>nodes = [new_object\<lparr>n_children := [carousel_id]\<rparr>, new_object\<lparr>n_parent := Some scene_id\<rparr>],
     plain = [], objects = [], models = [], loadPending = [True, True, True], loadedCount = 0,
     currentHoveredModel = None, hoveredObject = None, isHovering = False,
     clickCount = 0, clickTimer = None, lastClickTime = 0,
     location = None, windowsOpened = 0, pointerCursor = False,
     tweens = [], console = []\<rparr>"

section \<open>Loading and building the carousel\<close>

text \<open>\<^verbatim>\<open>models[index] = gltf.scene\<close>: an assignment past the end leaves holes.\<close>

definition js_set :: "'a option list \<Rightarrow> nat \<Rightarrow> 'a \<Rightarrow> 'a option list" where
  "js_set xs i v =
    (if i < length xs then xs[i := Some v]
     else xs @ replicate (i - length xs) None @ [Some v])"

text \<open>
  One pass of the loop of \<^verbatim>\<open>createCarousel\<close> per configuration entry: the group is
  created, then a template is cloned and placed. A missing template (an empty list, or a
  hole) makes \<^verbatim>\<open>.clone()\<close> throw: the result is then the error with the state
  reached.
\<close>

definition newGroup :: "nat \<Rightarrow> model_position \<Rightarrow> state \<Rightarrow> state" where
  "newGroup i config s =
    s\<lparr>nodes := nodes s @ [new_object\<lparr>n_name := ''carousel-item-'' @ string_of_nat i,
                                      ud_name := Some (mp_name config)\<rparr>]\<rparr>"

definition config_scale :: "model_position \<Rightarrow> rat" where
  "config_scale config = js_or (mp_scale config) MODEL_SCALE"

definition config_position :: "model_position \<Rightarrow> vec" where
  "config_position config =
    (fst (mp_position config), js_or (fst (snd (mp_position config))) 0, snd (snd (mp_position config)))"

definition config_rotation :: "model_position \<Rightarrow> vec" where
  "config_rotation config =
    (js_or (fst (mp_rotation config)) 0, js_or (fst (snd (mp_rotation config))) 0,
     js_or (snd (snd (mp_rotation config))) 0)"

text \<open>The clone \<open>m\<close> of the template: named, scaled, tagged for shadows.\<close>

definition cloneModel :: "nat \<Rightarrow> nat \<Rightarrow> model_position \<Rightarrow> tmpl \<Rightarrow> node list \<Rightarrow> node list" where
  "cloneModel i modelIndex config t h =
    (let m = length h;
         scale = config_scale config
     in traverse_from m
          (upd m (\<lambda>n. n\<lparr>n_name := ''model-'' @ string_of_nat i @ ''-'' @ string_of_nat modelIndex,
                             n_scale := (scale, scale, scale),
                             ud_originalScale := Some scale\<rparr>)
             (clone_tree None t h)))"

text \<open>
  \<^verbatim>\<open>group.add(model)\<close>, the transform of the group, its recorded originals (copies
  \<open>a + 2\<close> and \<open>a + 3\<close> of the plain objects \<open>a\<close> and \<open>a + 1\<close>), and
  \<^verbatim>\<open>carousel.add(group)\<close>.
\<close>

definition placeGroup :: "nat \<Rightarrow> nat \<Rightarrow> nat \<Rightarrow> model_position \<Rightarrow> node list \<Rightarrow> node list" where
  "placeGroup g m a config h =
    (let scale = config_scale config;
         h4 = upd m (\<lambda>n. n\<lparr>n_parent := Some g\<rparr>)
                (upd g (\<lambda>n. n\<lparr>n_children := n_children n @ [m]\<rparr>) h);
         h5 = upd g (\<lambda>n. n\<lparr>n_position := config_position config,
                            n_rotation := config_rotation config,
                            n_scale := (scale, scale, scale)\<rparr>) h4;
         h6 = upd g (\<lambda>n. n\<lparr>ud_originalPosition := Some (a + 2),
                            ud_originalRotation := Some (a + 3),
                            ud_originalScale := Some scale\<rparr>) h5
     in upd g (\<lambda>n. n\<lparr>n_parent := Some carousel_id\<rparr>)
          (upd carousel_id (\<lambda>n. n\<lparr>n_children := n_children n @ [g]\<rparr>) h6))"

definition placeModel :: "nat \<Rightarrow> nat \<Rightarrow> model_position \<Rightarrow> tmpl \<Rightarrow> nat \<Rightarrow> state \<Rightarrow> state" where
  "placeModel i modelIndex config t g s =
    (let m = length (nodes s);
         a = length (plain s);
         p1 = plain s @ [config_position config, config_rotation config]
     in s\<lparr>nodes := placeGroup g m a config (cloneModel i modelIndex config t (nodes s)),
          plain := p1 @ [p1 ! a, p1 ! (a + 1)],
          objects := objects s @ [g],
          console := console s @ [LogCreated i (config_position config) (config_rotation config)]\<rparr>)"

fun createInstances ::
  "nat \<Rightarrow> model_position list \<Rightarrow> tmpl option list \<Rightarrow> state \<Rightarrow> (error \<times> state) + state" where
  "createInstances i [] ts s = Inr s"
| "createInstances i (config # rest) ts s =
    (if length ts = 0 then Inl (TypeError, newGroup i config s)
     else
       (case ts ! (i mod length ts) of
          None \<Rightarrow> Inl (TypeError, newGroup i config s)
        | Some t \<Rightarrow>
            createInstances (Suc i) rest ts
              (placeModel i (i mod length ts) config t (length (nodes s)) (newGroup i config s))))"

definition createCarousel :: "tmpl option list \<Rightarrow> state \<Rightarrow> (error \<times> state) + state" where
  "createCarousel modelTemplates s =
    createInstances 0 MODEL_POSITIONS modelTemplates
      (s\<lparr>console := console s @ [LogCreating], objects := []\<rparr>)"

text \<open>
  The completion callback of one \<^verbatim>\<open>loader.load\<close>. An exception that escapes it reaches
  the window's error listener, which logs it.
\<close>

definition onLoad :: "nat \<Rightarrow> tmpl \<Rightarrow> state \<Rightarrow> state" where
  "onLoad index t s =
    (let s1 = s\<lparr>models := js_set (models s) index t, loadedCount := loadedCount s + 1\<rparr>
     in if loadedCount s1 = length MODEL_PATHS
        then (case createCarousel (models s1) s1 of
                Inr s2 \<Rightarrow> s2
              | Inl (e, s2) \<Rightarrow> s2\<lparr>console := console s2 @ [ErrThree]\<rparr>)
        else s1)"

section \<open>Ray casting\<close>

text \<open>
  The ray caster is the engine's. An event carries the objects along the cursor ray,
  nearest first; \<^verbatim>\<open>intersectObjects(roots, recursive)\<close> reports those among them that
  it tests: with recursion what is at or below a root, without recursion the roots alone.
  Of a root only its own geometry is tested, and a \<^verbatim>\<open>THREE.Group\<close> has none (its
  \<^verbatim>\<open>raycast\<close> is the empty one of \<^verbatim>\<open>Object3D\<close>): without recursion a root is
  reported only if it is a mesh.
\<close>

primrec is_under :: "nat \<Rightarrow> node list \<Rightarrow> nat list \<Rightarrow> nat \<Rightarrow> bool" where
  "is_under 0 h roots x = False"
| "is_under (Suc k) h roots x =
    (x < length h \<and>
     (x \<in> set roots \<or> (case n_parent (h ! x) of None \<Rightarrow> False | Some p \<Rightarrow> is_under k h roots p)))"

definition intersectObjects :: "node list \<Rightarrow> nat list \<Rightarrow> bool \<Rightarrow> nat list \<Rightarrow> nat list" where
  "intersectObjects h roots recursive ray =
    (if recursive then filter (is_under (length h) h roots) ray
     else filter (\<lambda>x. x < length h \<and> x \<in> set roots \<and> n_isMesh (h ! x)) ray)"

section \<open>Hover\<close>

text \<open>
  The inner loop of \<^verbatim>\<open>handleHover\<close> climbs the parent chain until an object carries
  \<^verbatim>\<open>userData.originalPosition\<close> or the chain ends. A run that does not end is \<open>None\<close>.
\<close>

partial_function (option) walkUp :: "node list \<Rightarrow> nat option \<Rightarrow> nat option option" where
  "walkUp h obj =
    (case obj of
       None \<Rightarrow> Some None
     | Some i \<Rightarrow>
         (if ud_originalPosition (h ! i) \<noteq> None then Some (Some i)
          else walkUp h (n_parent (h ! i))))"

declare walkUp.simps [code]

fun findModel :: "node list \<Rightarrow> nat list \<Rightarrow> nat option option" where
  "findModel h [] = Some None"
| "findModel h (x # xs) =
    (case walkUp h (Some x) of
       None \<Rightarrow> None
     | Some (Some m) \<Rightarrow> Some (Some m)
     | Some None \<Rightarrow> findModel h xs)"

definition gsap_to :: "nat \<Rightarrow> jnum \<Rightarrow> rat \<Rightarrow> string option \<Rightarrow> bool \<Rightarrow> state \<Rightarrow> state" where
  "gsap_to target v d e oc s =
    s\<lparr>tweens := tweens s @
        [\<lparr>tw_target = target, tw_x = v, tw_y = v, tw_z = v,
          tw_duration = d, tw_ease = e, tw_onComplete = oc\<rparr>]\<rparr>"

definition num_or_undefined :: "rat option \<Rightarrow> jnum" where
  "num_or_undefined v = (case v of None \<Rightarrow> Undefined | Some c \<Rightarrow> Num c)"

text \<open>The three places of \<^verbatim>\<open>handleHover\<close> that tween the hover target back.\<close>

definition resetHovered :: "nat \<Rightarrow> state \<Rightarrow> state" where
  "resetHovered c s =
    gsap_to c (num_or_undefined (ud_originalScale (nodes s ! c))) (3/10) (Some ''power2.out'') False s"

definition hoverScale :: "rat option \<Rightarrow> jnum" where
  "hoverScale v = (case v of None \<Rightarrow> NaN | Some c \<Rightarrow> Num (c * (11/10)))"

definition falsy_name :: "string option \<Rightarrow> bool" where
  "falsy_name v = (v = None \<or> v = Some [])"

definition handleHover :: "nat list \<Rightarrow> state \<Rightarrow> state option" where
  "handleHover ray s =
    (let intersects = intersectObjects (nodes s) (objects s) True ray
     in if intersects \<noteq> [] then
          (case findModel (nodes s) intersects of
             None \<Rightarrow> None
           | Some (Some m) \<Rightarrow>
               (if currentHoveredModel s \<noteq> Some m then
                  (let s1 = (case currentHoveredModel s of
                               Some c \<Rightarrow> resetHovered c s
                             | None \<Rightarrow> s);
                       s2 = s1\<lparr>currentHoveredModel := Some m\<rparr>;
                       s3 = (if falsy_name (ud_name (nodes s2 ! m))
                             then s2\<lparr>nodes := upd m (\<lambda>n. n\<lparr>ud_name := Some (n_name n)\<rparr>) (nodes s2)\<rparr>
                             else s2);
                       s4 = s3\<lparr>pointerCursor := True\<rparr>
                   in Some (gsap_to m (hoverScale (ud_originalScale (nodes s4 ! m))) (3/10)
                              (Some ''power2.out'') False s4))
                else Some s)
           | Some None \<Rightarrow>
               (case currentHoveredModel s of
                  Some c \<Rightarrow> Some ((resetHovered c s)\<lparr>currentHoveredModel := None, pointerCursor := False\<rparr>)
                | None \<Rightarrow> Some s))
        else
          (case currentHoveredModel s of
             Some c \<Rightarrow> Some ((resetHovered c s)\<lparr>currentHoveredModel := None, pointerCursor := False\<rparr>)
           | None \<Rightarrow> Some s))"

text \<open>The \<^verbatim>\<open>mouseout\<close> listener; \<open>leaving\<close> is its test on \<^verbatim>\<open>event.relatedTarget\<close>.\<close>

definition onMouseOut :: "bool \<Rightarrow> state \<Rightarrow> state" where
  "onMouseOut leaving s =
    (if leaving then
       (case currentHoveredModel s of
          Some c \<Rightarrow>
            gsap_to c
              (Num (js_or (case ud_originalScale (nodes s ! c) of None \<Rightarrow> 0 | Some v \<Rightarrow> v) MODEL_SCALE))
              (3/10) (Some ''power2.out'') True s
        | None \<Rightarrow> s)
     else s)"

text \<open>The \<^verbatim>\<open>blur\<close> listener.\<close>

definition onBlur :: "state \<Rightarrow> state" where
  "onBlur s =
    (case hoveredObject s of
       Some ho \<Rightarrow>
         (case n_children (nodes s ! ho) of
            [] \<Rightarrow> s
          | model # _ \<Rightarrow>
              (gsap_to model
                 (Num (js_or (case ud_originalScale (nodes s ! model) of None \<Rightarrow> 0 | Some v \<Rightarrow> v) MODEL_SCALE))
                 (3/10) None False s)\<lparr>hoveredObject := None, isHovering := False\<rparr>)
     | None \<Rightarrow> s)"

section \<open>Clicks\<close>

text \<open>
  \<^verbatim>\<open>userData.name || (children[0]?.name || '').toLowerCase()\<close> of the hovered object.
\<close>

definition modelNameOf :: "node list \<Rightarrow> nat \<Rightarrow> string" where
  "modelNameOf h c =
    (let fallback = toLowerCase (case n_children (h ! c) of [] \<Rightarrow> [] | k # _ \<Rightarrow> n_name (h ! k))
     in case ud_name (h ! c) of
          None \<Rightarrow> fallback
        | Some nm \<Rightarrow> (if nm = [] then fallback else nm))"

definition onModelClick :: "state \<Rightarrow> state" where
  "onModelClick s =
    (case currentHoveredModel s of
       Some c \<Rightarrow> s\<lparr>location := Some (html (pageName (modelNameOf (nodes s) c)))\<rparr>
     | None \<Rightarrow> s)"

text \<open>
  \<^verbatim>\<open>onMouseClick\<close>. The script keeps at most one timer alive, the one \<open>clickTimer\<close>
  refers to: the field holds the time at which that timer is due.
\<close>

definition onMouseClick :: "int \<Rightarrow> bool \<Rightarrow> state \<Rightarrow> state" where
  "onMouseClick now onContactButton s =
    (if onContactButton then s
     else
       (let s1 = s\<lparr>clickCount := clickCount s + 1\<rparr>
        in if clickCount s1 = 1 then s1\<lparr>clickTimer := Some (now + 300)\<rparr>
           else
             (let s2 = s1\<lparr>clickCount := 0, clickTimer := None\<rparr>
              in if currentHoveredModel s2 \<noteq> None then onModelClick s2 else s2)))"

definition onClickTimer :: "int \<Rightarrow> state \<Rightarrow> state" where
  "onClickTimer now s =
    (case clickTimer s of
       Some due \<Rightarrow> (if due \<le> now then s\<lparr>clickCount := 0, clickTimer := None\<rparr> else s)
     | None \<Rightarrow> s)"

definition doubleClickThreshold :: int where
  "doubleClickThreshold = 300"

text \<open>The second \<^verbatim>\<open>click\<close> listener, on time stamps.\<close>

definition onWindowClick :: "int \<Rightarrow> nat list \<Rightarrow> state \<Rightarrow> state" where
  "onWindowClick now ray s =
    (let intersects = intersectObjects (nodes s) (objects s) True ray
     in if intersects \<noteq> [] then
          (let s1 = (if now - lastClickTime s < doubleClickThreshold
                     then s\<lparr>windowsOpened := windowsOpened s + 1\<rparr> else s)
           in s1\<lparr>lastClickTime := now\<rparr>)
        else s)"

section \<open>The render loop and the tweens\<close>

definition set_scale :: "nat \<Rightarrow> vec \<Rightarrow> state \<Rightarrow> state" where
  "set_scale i v s = s\<lparr>nodes := upd i (\<lambda>n. n\<lparr>n_scale := v\<rparr>) (nodes s)\<rparr>"

definition animate :: "nat list \<Rightarrow> state \<Rightarrow> state" where
  "animate ray s =
    (let intersects = intersectObjects (nodes s) (objects s) False ray;
         s3 = (case intersects of
                 x # _ \<Rightarrow>
                   (let s1 = (case hoveredObject s of
                                Some ho \<Rightarrow> (if ho \<noteq> x then set_scale ho (1, 1, 1) s else s)
                              | None \<Rightarrow> s);
                        s2 = s1\<lparr>hoveredObject := Some x\<rparr>
                    in set_scale x (27/25, 27/25, 27/25) s2)
               | [] \<Rightarrow>
                   (case hoveredObject s of
                      Some ho \<Rightarrow> (set_scale ho (1, 1, 1) s)\<lparr>hoveredObject := None\<rparr>
                    | None \<Rightarrow> s))
     in s3\<lparr>console := console s3 @ [LogFPS]\<rparr>)"

text \<open>
  A running tween writes into the scale vector it was given; when it completes, the
  vector holds the destination and the tween's \<^verbatim>\<open>onComplete\<close>, if any, runs.
\<close>

definition tweenUpdate :: "nat \<Rightarrow> vec \<Rightarrow> state \<Rightarrow> state" where
  "tweenUpdate k v s =
    (if k < length (tweens s) then set_scale (tw_target (tweens s ! k)) v s else s)"

definition tweenComplete :: "nat \<Rightarrow> state \<Rightarrow> state" where
  "tweenComplete k s =
    (if k < length (tweens s) then
       (let tw = tweens s ! k;
            s1 = (case (tw_x tw, tw_y tw, tw_z tw) of
                    (Num x, Num y, Num z) \<Rightarrow> set_scale (tw_target tw) (x, y, z) s
                  | _ \<Rightarrow> s);
            s2 = s1\<lparr>tweens := take k (tweens s1) @ drop (Suc k) (tweens s1)\<rparr>
        in if tw_onComplete tw then s2\<lparr>currentHoveredModel := None\<rparr> else s2)
     else s)"

section \<open>Events\<close>

datatype event =
  LoadOk nat tmpl
| LoadFail nat
| MouseMove "nat list"
| Click int bool "nat list"
| TimerFire int
| MouseOut bool
| Blur
| Frame "nat list"
| TweenUpdate nat vec
| TweenComplete nat
| WindowError

text \<open>
  One event, handled to completion. Each of the three loads ends once, with the asset or
  with a failure; no callback was given for a failure. A click runs both click listeners
  in the order of their registration.
\<close>

fun step :: "event \<Rightarrow> state \<Rightarrow> state option" where
  "step (LoadOk i t) s =
    (if i < length MODEL_PATHS \<and> loadPending s ! i
     then Some (onLoad i t (s\<lparr>loadPending := (loadPending s)[i := False]\<rparr>))
     else Some s)"
| "step (LoadFail i) s =
    (if i < length MODEL_PATHS \<and> loadPending s ! i
     then Some (s\<lparr>loadPending := (loadPending s)[i := False]\<rparr>)
     else Some s)"
| "step (MouseMove ray) s = handleHover ray s"
| "step (Click now onContactButton ray) s = Some (onWindowClick now ray (onMouseClick now onContactButton s))"
| "step (TimerFire now) s = Some (onClickTimer now s)"
| "step (MouseOut leaving) s = Some (onMouseOut leaving s)"
| "step Blur s = Some (onBlur s)"
| "step (Frame ray) s = Some (animate ray s)"
| "step (TweenUpdate k v) s = Some (tweenUpdate k v s)"
| "step (TweenComplete k) s = Some (tweenComplete k s)"
| "step WindowError s = Some (s\<lparr>console := console s @ [ErrThree]\<rparr>)"

fun run :: "event list \<Rightarrow> state \<Rightarrow> state option" where
  "run [] s = Some s"
| "run (e # es) s = (case step e s of None \<Rightarrow> None | Some s' \<Rightarrow> run es s')"

section \<open>Invariants of the scene and of the loader\<close>

text \<open>
  The facts below hold in every state the script can reach. They are stated with
  these predicates: what a cloned asset node looks like (\<open>plain_node\<close>), what an
  instance of configuration entry \<open>k\<close> has recorded (\<open>inst_ok\<close>), that parents
  were allocated before their children (\<open>parents_ok\<close>), and that the tagged objects
  are exactly the instances (\<open>scene_ok\<close>). Pass \<open>k\<close> of the loop of
  \<^verbatim>\<open>createCarousel\<close> allocates four plain objects, the position and the rotation and
  the copy of each (\<open>quad\<close>).
\<close>

definition plain_node :: "nat \<Rightarrow> node \<Rightarrow> bool" where
  "plain_node j n = (ud_originalPosition n = None \<and> (case n_parent n of None \<Rightarrow> True | Some q \<Rightarrow> q < j))"

definition inst_ok :: "node \<Rightarrow> nat \<Rightarrow> bool" where
  "inst_ok n k =
    (let cfg = MODEL_POSITIONS ! k
     in ud_name n = Some (mp_name cfg) \<and>
        ud_originalScale n = Some (config_scale cfg) \<and>
        ud_originalPosition n = Some (4 * k + 2) \<and>
        ud_originalRotation n = Some (4 * k + 3) \<and>
        n_position n = config_position cfg \<and>
        n_rotation n = config_rotation cfg \<and>
        n_parent n = Some carousel_id \<and> \<not> n_isMesh n)"

definition parents_ok :: "node list \<Rightarrow> bool" where
  "parents_ok h = (\<forall>j<length h. case n_parent (h ! j) of None \<Rightarrow> True | Some q \<Rightarrow> q < j)"

definition scene_ok :: "node list \<Rightarrow> nat list \<Rightarrow> bool" where
  "scene_ok h objs =
    (2 \<le> length h \<and> parents_ok h \<and>
     (\<forall>k<length objs. objs ! k < length h \<and> 2 \<le> objs ! k \<and> inst_ok (h ! (objs ! k)) k) \<and>
     (\<forall>j<length h. ud_originalPosition (h ! j) \<noteq> None \<longrightarrow> j \<in> set objs))"

definition quad :: "model_position \<Rightarrow> vec list" where
  "quad cfg = [config_position cfg, config_rotation cfg, config_position cfg, config_rotation cfg]"

definition loop_inv :: "nat \<Rightarrow> state \<Rightarrow> bool" where
  "loop_inv i s =
    (length (objects s) = i \<and> plain s = concat (map quad (take i MODEL_POSITIONS)) \<and>
     scene_ok (nodes s) (objects s))"




text \<open>
  The loader: the slots of \<^verbatim>\<open>models\<close> that hold a template are counted by
  \<open>loadedCount\<close>, and a load that is still pending has an empty slot.
\<close>

definition count_some :: "'a option list \<Rightarrow> nat" where
  "count_some xs = length (filter (\<lambda>x. x \<noteq> None) xs)"

definition slot_empty :: "'a option list \<Rightarrow> nat \<Rightarrow> bool" where
  "slot_empty xs j = (j < length xs \<longrightarrow> xs ! j = None)"

definition slots_ok :: "state \<Rightarrow> bool" where
  "slots_ok s =
    (length (loadPending s) = 3 \<and> length (models s) \<le> 3 \<and>
     loadedCount s = count_some (models s) \<and>
     (\<forall>i<3. loadPending s ! i \<longrightarrow> slot_empty (models s) i))"

text \<open>
  The console entries that are errors, and those that \<^verbatim>\<open>createCarousel\<close> writes
  when it starts.
\<close>

definition errors_of :: "log list \<Rightarrow> log list" where
  "errors_of ls = filter (\<lambda>l. l = ErrThree) ls"

definition creating_of :: "log list \<Rightarrow> log list" where
  "creating_of ls = filter (\<lambda>l. l = LogCreating) ls"

text \<open>
  Before the carousel is built nothing but the loader and the click state has moved;
  once it is built the scene is the one the three passes of the loop produced, and both
  hover references point at instances. The click count is 1 exactly while the timer is
  pending.
\<close>

definition prebuilt :: "state \<Rightarrow> bool" where
  "prebuilt s =
    (nodes s = nodes init \<and> plain s = [] \<and> objects s = [] \<and>
     currentHoveredModel s = None \<and> hoveredObject s = None \<and> tweens s = [] \<and>
     creating_of (console s) = [])"

definition built :: "state \<Rightarrow> bool" where
  "built s =
    (loop_inv 3 s \<and>
     (case currentHoveredModel s of None \<Rightarrow> True | Some c \<Rightarrow> c \<in> set (objects s)) \<and>
     (case hoveredObject s of None \<Rightarrow> True | Some c \<Rightarrow> c \<in> set (objects s)))"

definition timer_ok :: "state \<Rightarrow> bool" where
  "timer_ok s =
    (if clickTimer s = None then clickCount s = 0 else clickCount s = 1)"

definition inv :: "state \<Rightarrow> bool" where
  "inv s = (slots_ok s \<and> timer_ok s \<and> (if loadedCount s < 3 then prebuilt s else built s))"

text \<open>
  Two stores that differ at most in the scale vectors of their objects, and two states
  that differ in nothing the carousel consists of but such scale vectors.
\<close>

definition same_static :: "node list \<Rightarrow> node list \<Rightarrow> bool" where
  "same_static h h' =
    (length h' = length h \<and> (\<forall>j<length h. h' ! j = (h ! j)\<lparr>n_scale := n_scale (h' ! j)\<rparr>))"

definition frame :: "state \<Rightarrow> state \<Rightarrow> bool" where
  "frame s s' =
    (loadedCount s' = loadedCount s \<and> models s' = models s \<and> objects s' = objects s \<and>
     plain s' = plain s \<and> same_static (nodes s) (nodes s'))"

text \<open>
  The two outcomes of \<^verbatim>\<open>handleHover\<close> that change the state: the hover target is
  tweened back and cleared, or \<open>m\<close> becomes the hover target.
\<close>

definition unhover :: "state \<Rightarrow> state" where
  "unhover s =
    (case currentHoveredModel s of
       Some c \<Rightarrow> (resetHovered c s)\<lparr>currentHoveredModel := None, pointerCursor := False\<rparr>
     | None \<Rightarrow> s)"

definition rehover :: "nat \<Rightarrow> state \<Rightarrow> state" where
  "rehover m s =
    gsap_to m (hoverScale (ud_originalScale (nodes s ! m))) (3/10) (Some ''power2.out'') False
      ((case currentHoveredModel s of Some c \<Rightarrow> resetHovered c s | None \<Rightarrow> s)
         \<lparr>currentHoveredModel := Some m, pointerCursor := True\<rparr>)"

text \<open>
  An event that is no click and no expiry of a timer due at \<open>due\<close>.
\<close>

definition quiet :: "int \<Rightarrow> event \<Rightarrow> bool" where
  "quiet due e = (case e of Click t b r \<Rightarrow> False | TimerFire t \<Rightarrow> t < due | _ \<Rightarrow> True)"



text \<open>
  A small asset and some executions, to run the script on concrete events. After the
  three loads the instances are the objects 2, 5 and 8, their clones 3, 6 and 9, and the
  meshes of the clones 4, 7 and 10.
\<close>

definition demo_asset :: tmpl where
  "demo_asset =
    Tmpl ''Scene'' False (0, 0, 0) (0, 0, 0) (1, 1, 1)
      [Tmpl ''Mesh'' True (0, 0, 0) (0, 0, 0) (1, 1, 1) []]"

definition demo_loaded :: "event list" where
  "demo_loaded = [LoadOk 0 demo_asset, LoadOk 2 demo_asset, LoadOk 1 demo_asset]"

definition demo_hovered :: "event list" where
  "demo_hovered = demo_loaded @ [MouseMove [4]]"

definition demo_session :: "event list" where
  "demo_session = demo_loaded @ [MouseMove [4], Frame [2], TweenUpdate 0 (5, 5, 5)]"

definition demo_failed :: "event list" where
  "demo_failed = [LoadOk 0 demo_asset, LoadFail 1, LoadOk 2 demo_asset, MouseMove [1], WindowError, Frame [1]]"

definition state_after :: "event list \<Rightarrow> state" where
  "state_after evs = (case run evs init of Some s \<Rightarrow> s | None \<Rightarrow> init)"

section \<open>Facts about the model\<close>

subsection \<open>The store and the click listeners\<close>

lemma upd_length [simp]: "length (upd i f h) = length h"
  by (simp add: upd_def)

lemma upd_nth: "(upd i f h) ! j = (if j = i \<and> i < length h then f (h ! i) else h ! j)"
  by (cases "i < length h") (auto simp: upd_def list_update_beyond)

lemma wc_fields:
  "clickCount (onWindowClick t ray s) = clickCount s"
  "clickTimer (onWindowClick t ray s) = clickTimer s"
  "currentHoveredModel (onWindowClick t ray s) = currentHoveredModel s"
  "location (onWindowClick t ray s) = location s"
  "nodes (onWindowClick t ray s) = nodes s"
  "objects (onWindowClick t ray s) = objects s"
  by (simp_all add: onWindowClick_def Let_def)

lemma mc_fields:
  "lastClickTime (onMouseClick t' b s) = lastClickTime s"
  "windowsOpened (onMouseClick t' b s) = windowsOpened s"
  "nodes (onMouseClick t' b s) = nodes s"
  "objects (onMouseClick t' b s) = objects s"
  by (simp_all add: onMouseClick_def onModelClick_def Let_def split: option.splits)

lemma timer_fields:
  "lastClickTime (onClickTimer t' s) = lastClickTime s"
  "windowsOpened (onClickTimer t' s) = windowsOpened s"
  "nodes (onClickTimer t' s) = nodes s"
  "objects (onClickTimer t' s) = objects s"
  by (simp_all add: onClickTimer_def split: option.splits)

lemma wc_opens:
  assumes "intersectObjects (nodes s) (objects s) True ray \<noteq> []" "t - lastClickTime s < 300"
  shows "windowsOpened (onWindowClick t ray s) = Suc (windowsOpened s)"
  using assms by (simp add: onWindowClick_def Let_def doubleClickThreshold_def)

lemma wc_last:
  assumes "intersectObjects (nodes s) (objects s) True ray \<noteq> []"
  shows "lastClickTime (onWindowClick t ray s) = t"
  using assms by (simp add: onWindowClick_def Let_def)

lemma mc_upd_last: "onMouseClick t b (s\<lparr>lastClickTime := x\<rparr>) = (onMouseClick t b s)\<lparr>lastClickTime := x\<rparr>"
  by (cases "currentHoveredModel s") (simp_all add: onMouseClick_def onModelClick_def Let_def)

lemma mc_upd_win: "onMouseClick t b (s\<lparr>windowsOpened := x\<rparr>) = (onMouseClick t b s)\<lparr>windowsOpened := x\<rparr>"
  by (cases "currentHoveredModel s") (simp_all add: onMouseClick_def onModelClick_def Let_def)

lemma wc_commute_mc:
  "onWindowClick t ray (onMouseClick t' b s) = onMouseClick t' b (onWindowClick t ray s)"
  by (simp add: onWindowClick_def [of t ray "onMouseClick t' b s"] onWindowClick_def [of t ray s] mc_fields mc_upd_last mc_upd_win Let_def)

lemma tm_upd_last: "onClickTimer t (s\<lparr>lastClickTime := x\<rparr>) = (onClickTimer t s)\<lparr>lastClickTime := x\<rparr>"
  by (cases "clickTimer s") (simp_all add: onClickTimer_def)

lemma tm_upd_win: "onClickTimer t (s\<lparr>windowsOpened := x\<rparr>) = (onClickTimer t s)\<lparr>windowsOpened := x\<rparr>"
  by (cases "clickTimer s") (simp_all add: onClickTimer_def)

lemma wc_commute_timer:
  "onWindowClick t ray (onClickTimer t' s) = onClickTimer t' (onWindowClick t ray s)"
  by (simp add: onWindowClick_def [of t ray "onClickTimer t' s"] onWindowClick_def [of t ray s] timer_fields tm_upd_last tm_upd_win Let_def)

subsection \<open>Cloning and the loop of createCarousel\<close>

lemma clone_grows:
  "(\<forall>q. p = Some q \<longrightarrow> q < length h) \<Longrightarrow>
     length h < length (clone_tree p t h) \<and>
     (\<forall>j<length h. clone_tree p t h ! j = h ! j) \<and>
     (\<forall>j. length h \<le> j \<and> j < length (clone_tree p t h) \<longrightarrow> plain_node j (clone_tree p t h ! j))"
  "r < length h \<Longrightarrow>
     length h \<le> length (clone_forest r cs h) \<and>
     (\<forall>j<length h. j \<noteq> r \<longrightarrow> clone_forest r cs h ! j = h ! j) \<and>
     ud_originalPosition (clone_forest r cs h ! r) = ud_originalPosition (h ! r) \<and>
     n_parent (clone_forest r cs h ! r) = n_parent (h ! r) \<and>
     (\<forall>j. length h \<le> j \<and> j < length (clone_forest r cs h) \<longrightarrow> plain_node j (clone_forest r cs h ! j))"
proof (induction p t h and r cs h rule: clone_tree_clone_forest.induct)
  case (1 p nm m pos rot sc cs h)
  let ?n = "new_object\<lparr>n_name := nm, n_isMesh := m, n_parent := p,
                       n_position := pos, n_rotation := rot, n_scale := sc\<rparr>"
  let ?h1 = "h @ [?n]"
  let ?R = "clone_forest (length h) cs ?h1"
  have ih: "length ?h1 \<le> length ?R \<and>
     (\<forall>j<length ?h1. j \<noteq> length h \<longrightarrow> ?R ! j = ?h1 ! j) \<and>
     ud_originalPosition (?R ! length h) = ud_originalPosition (?h1 ! length h) \<and>
     n_parent (?R ! length h) = n_parent (?h1 ! length h) \<and>
     (\<forall>j. length ?h1 \<le> j \<and> j < length ?R \<longrightarrow> plain_node j (?R ! j))"
    using "1.IH" by simp
  have R: "clone_tree p (Tmpl nm m pos rot sc cs) h = ?R" by simp
  have a: "length h < length ?R" using ih by simp
  have b: "\<forall>j<length h. ?R ! j = h ! j"
  proof (intro allI impI)
    fix j assume j: "j < length h"
    then have "?R ! j = ?h1 ! j" using ih by simp
    then show "?R ! j = h ! j" using j by (simp add: nth_append)
  qed
  have root: "plain_node (length h) (?R ! length h)"
    using ih "1.prems" by (auto simp: plain_node_def new_object_def split: option.splits)
  have c: "\<forall>j. length h \<le> j \<and> j < length ?R \<longrightarrow> plain_node j (?R ! j)"
  proof (intro allI impI)
    fix j assume j: "length h \<le> j \<and> j < length ?R"
    show "plain_node j (?R ! j)"
    proof (cases "j = length h")
      case True then show ?thesis using root by simp
    next
      case False
      then have "length ?h1 \<le> j" using j by simp
      then show ?thesis using ih j by blast
    qed
  qed
  show ?case unfolding R using a b c by blast
next
  case (2 r h)
  then show ?case by auto
next
  case (3 r c cs h)
  let ?h1 = "clone_tree (Some r) c h"
  let ?h2 = "upd r (\<lambda>n. n\<lparr>n_children := n_children n @ [length h]\<rparr>) ?h1"
  let ?R = "clone_forest r cs ?h2"
  have R: "clone_forest r (c # cs) h = ?R" by simp
  have ih1: "length h < length ?h1 \<and> (\<forall>j<length h. ?h1 ! j = h ! j) \<and>
     (\<forall>j. length h \<le> j \<and> j < length ?h1 \<longrightarrow> plain_node j (?h1 ! j))"
    using "3.IH"(1) "3.prems" by simp
  have r2: "r < length ?h2" using ih1 "3.prems" by simp
  have ih2: "length ?h2 \<le> length ?R \<and>
     (\<forall>j<length ?h2. j \<noteq> r \<longrightarrow> ?R ! j = ?h2 ! j) \<and>
     ud_originalPosition (?R ! r) = ud_originalPosition (?h2 ! r) \<and>
     n_parent (?R ! r) = n_parent (?h2 ! r) \<and>
     (\<forall>j. length ?h2 \<le> j \<and> j < length ?R \<longrightarrow> plain_node j (?R ! j))"
    using "3.IH"(2) r2 by blast
  have h2r: "ud_originalPosition (?h2 ! r) = ud_originalPosition (h ! r) \<and> n_parent (?h2 ! r) = n_parent (h ! r)"
    using ih1 "3.prems" by (simp add: upd_nth)
  have h2j: "\<And>j. j \<noteq> r \<Longrightarrow> ?h2 ! j = ?h1 ! j" by (simp add: upd_nth)
  have a: "length h \<le> length ?R" using ih1 ih2 by simp
  have b: "\<forall>j<length h. j \<noteq> r \<longrightarrow> ?R ! j = h ! j"
  proof (intro allI impI)
    fix j assume j: "j < length h" "j \<noteq> r"
    then have "?R ! j = ?h2 ! j" using ih2 ih1 by simp
    then show "?R ! j = h ! j" using j h2j ih1 by simp
  qed
  have c: "\<forall>j. length h \<le> j \<and> j < length ?R \<longrightarrow> plain_node j (?R ! j)"
  proof (intro allI impI)
    fix j assume j: "length h \<le> j \<and> j < length ?R"
    have jr: "j \<noteq> r" using j "3.prems" by simp
    show "plain_node j (?R ! j)"
    proof (cases "j < length ?h2")
      case True
      then have "?R ! j = ?h1 ! j" using ih2 jr h2j by simp
      then show ?thesis using ih1 j True by simp
    next
      case False
      then show ?thesis using ih2 j by simp
    qed
  qed
  show ?case unfolding R using a b c ih2 h2r by simp
qed

lemma traverse_length [simp]: "length (traverse_from r h) = length h"
  by (simp add: traverse_from_def)

lemma traverse_nth:
  "j < length h \<Longrightarrow> traverse_from r h ! j = (if j < r then h ! j else tag_shadows (h ! j))"
  by (auto simp: traverse_from_def nth_append min_def)

lemma tag_shadows_fields [simp]:
  "ud_originalPosition (tag_shadows n) = ud_originalPosition n"
  "ud_originalRotation (tag_shadows n) = ud_originalRotation n"
  "ud_originalScale (tag_shadows n) = ud_originalScale n"
  "ud_name (tag_shadows n) = ud_name n"
  "n_parent (tag_shadows n) = n_parent n"
  "n_children (tag_shadows n) = n_children n"
  "n_scale (tag_shadows n) = n_scale n"
  "n_name (tag_shadows n) = n_name n"
  by (simp_all add: tag_shadows_def)

lemma plain_node_tag [simp]: "plain_node j (tag_shadows n) = plain_node j n"
  by (simp add: plain_node_def tag_shadows_def)

lemma cloneModel_grows:
  "length h < length (cloneModel i mi cfg t h)"
  "j < length h \<Longrightarrow> cloneModel i mi cfg t h ! j = h ! j"
  "length h \<le> j \<Longrightarrow> j < length (cloneModel i mi cfg t h) \<Longrightarrow> plain_node j (cloneModel i mi cfg t h ! j)"
proof -
  let ?c = "clone_tree None t h"
  have c: "length h < length ?c \<and> (\<forall>j<length h. ?c ! j = h ! j) \<and>
     (\<forall>j. length h \<le> j \<and> j < length ?c \<longrightarrow> plain_node j (?c ! j))"
    using clone_grows(1) [of None h t] by simp
  show "length h < length (cloneModel i mi cfg t h)"
    using c by (simp add: cloneModel_def Let_def)
  show "j < length h \<Longrightarrow> cloneModel i mi cfg t h ! j = h ! j"
    using c by (simp add: cloneModel_def Let_def traverse_nth upd_nth)
  show "length h \<le> j \<Longrightarrow> j < length (cloneModel i mi cfg t h) \<Longrightarrow> plain_node j (cloneModel i mi cfg t h ! j)"
  proof -
    assume j: "length h \<le> j" "j < length (cloneModel i mi cfg t h)"
    then have jc: "j < length ?c" by (simp add: cloneModel_def Let_def)
    then have p: "plain_node j (?c ! j)" using c j by blast
    show ?thesis
      using j jc p by (auto simp: cloneModel_def Let_def traverse_nth upd_nth plain_node_def)
  qed
qed


lemma placeGroup_length [simp]: "length (placeGroup g m a cfg h) = length h"
  by (simp add: placeGroup_def Let_def)

lemma placeGroup_other:
  "j \<noteq> g \<Longrightarrow> j \<noteq> m \<Longrightarrow> j \<noteq> carousel_id \<Longrightarrow> placeGroup g m a cfg h ! j = h ! j"
  by (simp add: placeGroup_def Let_def upd_nth)

lemma placeGroup_model:
  "m < length h \<Longrightarrow> m \<noteq> g \<Longrightarrow> m \<noteq> carousel_id \<Longrightarrow>
     placeGroup g m a cfg h ! m = (h ! m)\<lparr>n_parent := Some g\<rparr>"
  by (simp add: placeGroup_def Let_def upd_nth)

lemma placeGroup_carousel:
  "carousel_id < length h \<Longrightarrow> g \<noteq> carousel_id \<Longrightarrow> m \<noteq> carousel_id \<Longrightarrow>
     placeGroup g m a cfg h ! carousel_id =
       (h ! carousel_id)\<lparr>n_children := n_children (h ! carousel_id) @ [g]\<rparr>"
  by (simp add: placeGroup_def Let_def upd_nth)

lemma placeGroup_group:
  "g < length h \<Longrightarrow> m \<noteq> g \<Longrightarrow> g \<noteq> carousel_id \<Longrightarrow>
     placeGroup g m a cfg h ! g =
       (h ! g)\<lparr>n_children := n_children (h ! g) @ [m],
               n_position := config_position cfg, n_rotation := config_rotation cfg,
               n_scale := (config_scale cfg, config_scale cfg, config_scale cfg),
               ud_originalPosition := Some (a + 2), ud_originalRotation := Some (a + 3),
               ud_originalScale := Some (config_scale cfg),
               n_parent := Some carousel_id\<rparr>"
  by (simp add: placeGroup_def Let_def upd_nth)

lemma scene_ok_iter:
  assumes ok: "scene_ok h objs"
  shows "scene_ok
           (placeGroup (length h) (Suc (length h)) (4 * length objs) (MODEL_POSITIONS ! length objs)
              (cloneModel i mi (MODEL_POSITIONS ! length objs) t
                 (h @ [new_object\<lparr>n_name := nm, ud_name := Some (mp_name (MODEL_POSITIONS ! length objs))\<rparr>])))
           (objs @ [length h])"
proof -
  let ?g = "length h"
  let ?m = "Suc (length h)"
  let ?cfg = "MODEL_POSITIONS ! length objs"
  let ?grp = "new_object\<lparr>n_name := nm, ud_name := Some (mp_name ?cfg)\<rparr>"
  let ?h1 = "h @ [?grp]"
  let ?hc = "cloneModel i mi ?cfg t ?h1"
  let ?R = "placeGroup ?g ?m (4 * length objs) ?cfg ?hc"
  have g2: "2 \<le> ?g" using ok by (simp add: scene_ok_def)
  have lc: "?m < length ?hc" using cloneModel_grows(1) [of ?h1 i mi ?cfg t] by simp
  have old: "\<And>j. j < ?m \<Longrightarrow> ?hc ! j = ?h1 ! j"
    using cloneModel_grows(2) [of _ ?h1 i mi ?cfg t] by simp
  have new: "\<And>j. ?m \<le> j \<Longrightarrow> j < length ?hc \<Longrightarrow> plain_node j (?hc ! j)"
    using cloneModel_grows(3) [of ?h1 _ i mi ?cfg t] by simp
  have cid: "carousel_id < ?g" "carousel_id \<noteq> ?g" "carousel_id \<noteq> ?m" "?g \<noteq> carousel_id" "?m \<noteq> carousel_id"
    using g2 by (auto simp: carousel_id_def)
  have Rg: "?R ! ?g = (?grp)\<lparr>n_children := n_children ?grp @ [?m],
               n_position := config_position ?cfg, n_rotation := config_rotation ?cfg,
               n_scale := (config_scale ?cfg, config_scale ?cfg, config_scale ?cfg),
               ud_originalPosition := Some (4 * length objs + 2), ud_originalRotation := Some (4 * length objs + 3),
               ud_originalScale := Some (config_scale ?cfg),
               n_parent := Some carousel_id\<rparr>"
  proof -
    have "?hc ! ?g = ?grp" using old [of ?g] by simp
    moreover have "?g < length ?hc" using lc by simp
    ultimately show ?thesis using placeGroup_group [of ?g ?hc ?m "4 * length objs" ?cfg] cid by simp
  qed
  have Rm: "?R ! ?m = (?hc ! ?m)\<lparr>n_parent := Some ?g\<rparr>"
    using placeGroup_model [of ?m ?hc ?g "4 * length objs" ?cfg] lc cid by simp
  have Rc: "?R ! carousel_id = (h ! carousel_id)\<lparr>n_children := n_children (h ! carousel_id) @ [?g]\<rparr>"
  proof -
    have "?hc ! carousel_id = h ! carousel_id" using old [of carousel_id] cid by (simp add: nth_append)
    moreover have "carousel_id < length ?hc" using lc cid by simp
    ultimately show ?thesis
      using placeGroup_carousel [of ?hc ?g ?m "4 * length objs" ?cfg] cid by simp
  qed
  have Rold: "\<And>j. j < ?g \<Longrightarrow> j \<noteq> carousel_id \<Longrightarrow> ?R ! j = h ! j"
  proof -
    fix j assume j: "j < ?g" "j \<noteq> carousel_id"
    have "?R ! j = ?hc ! j" using j by (simp add: placeGroup_other)
    also have "\<dots> = ?h1 ! j" using old [of j] j by simp
    finally show "?R ! j = h ! j" using j by (simp add: nth_append)
  qed
  have Rnew: "\<And>j. ?m < j \<Longrightarrow> j < length ?hc \<Longrightarrow> ?R ! j = ?hc ! j"
    using cid by (simp add: placeGroup_other)
  have len: "length ?R = length ?hc" by simp
  have oldpar: "\<And>j. j < ?g \<Longrightarrow> n_parent (?R ! j) = n_parent (h ! j)"
    using Rold Rc by (case_tac "j = carousel_id") auto
  have oldtag: "\<And>j. j < ?g \<Longrightarrow> ud_originalPosition (?R ! j) = ud_originalPosition (h ! j)"
    using Rold Rc by (case_tac "j = carousel_id") auto
  have p1: "2 \<le> length ?R" using lc by simp
  have p2: "parents_ok ?R"
    unfolding parents_ok_def
  proof (intro allI impI)
    fix j assume j: "j < length ?R"
    consider "j < ?g" | "j = ?g" | "j = ?m" | "?m < j" by linarith
    then show "case n_parent (?R ! j) of None \<Rightarrow> True | Some q \<Rightarrow> q < j"
    proof cases
      case 1
      then show ?thesis using oldpar ok by (simp add: scene_ok_def parents_ok_def)
    next
      case 2
      then show ?thesis using Rg cid by simp
    next
      case 3
      then show ?thesis using Rm by simp
    next
      case 4
      then show ?thesis using Rnew [of j] new [of j] j by (simp add: plain_node_def)
    qed
  qed
  have p3: "\<forall>k<length (objs @ [?g]). (objs @ [?g]) ! k < length ?R \<and> 2 \<le> (objs @ [?g]) ! k \<and>
              inst_ok (?R ! ((objs @ [?g]) ! k)) k"
  proof (intro allI impI)
    fix k assume k: "k < length (objs @ [?g])"
    show "(objs @ [?g]) ! k < length ?R \<and> 2 \<le> (objs @ [?g]) ! k \<and> inst_ok (?R ! ((objs @ [?g]) ! k)) k"
    proof (cases "k < length objs")
      case True
      then have o: "objs ! k < ?g" "2 \<le> objs ! k" "inst_ok (h ! (objs ! k)) k"
        using ok by (simp_all add: scene_ok_def)
      then have "objs ! k \<noteq> carousel_id" by (simp add: carousel_id_def)
      then have "?R ! (objs ! k) = h ! (objs ! k)" using Rold o by simp
      then show ?thesis using True o lc by (simp add: nth_append)
    next
      case False
      then have kk: "k = length objs" using k by simp
      have "inst_ok (?R ! ?g) (length objs)"
        unfolding Rg by (simp add: inst_ok_def Let_def new_object_def)
      then show ?thesis using kk lc g2 by (simp add: nth_append)
    qed
  qed
  have p4: "\<forall>j<length ?R. ud_originalPosition (?R ! j) \<noteq> None \<longrightarrow> j \<in> set (objs @ [?g])"
  proof (intro allI impI)
    fix j assume j: "j < length ?R" and t: "ud_originalPosition (?R ! j) \<noteq> None"
    consider "j < ?g" | "j = ?g" | "j = ?m" | "?m < j" by linarith
    then show "j \<in> set (objs @ [?g])"
    proof cases
      case 1
      then have "ud_originalPosition (h ! j) \<noteq> None" using t oldtag by simp
      then show ?thesis using ok 1 by (simp add: scene_ok_def)
    next
      case 2
      then show ?thesis by simp
    next
      case 3
      have "plain_node ?m (?hc ! ?m)" using new [of ?m] lc by simp
      then show ?thesis using t 3 Rm by (simp add: plain_node_def)
    next
      case 4
      then show ?thesis using Rnew [of j] new [of j] j t by (simp add: plain_node_def)
    qed
  qed
  show ?thesis unfolding scene_ok_def using p1 p2 p3 p4 by blast
qed

lemma length_MODEL_POSITIONS [simp]: "length MODEL_POSITIONS = 3"
  by (simp add: MODEL_POSITIONS_def)

lemma length_quad [simp]: "length (quad c) = 4"
  by (simp add: quad_def)

lemma length_concat_quad: "length (concat (map quad xs)) = 4 * length xs"
  by (induction xs) simp_all

lemma placeModel_fields:
  "nodes (placeModel i mi cfg t g (newGroup i cfg s)) =
     placeGroup g (Suc (length (nodes s))) (length (plain s)) cfg
       (cloneModel i mi cfg t
          (nodes s @ [new_object\<lparr>n_name := ''carousel-item-'' @ string_of_nat i, ud_name := Some (mp_name cfg)\<rparr>]))"
  "plain (placeModel i mi cfg t g (newGroup i cfg s)) = plain s @ quad cfg"
  "objects (placeModel i mi cfg t g (newGroup i cfg s)) = objects s @ [g]"
  "console (placeModel i mi cfg t g (newGroup i cfg s)) =
     console s @ [LogCreated i (config_position cfg) (config_rotation cfg)]"
  by (simp_all add: placeModel_def newGroup_def Let_def quad_def nth_append)

lemma placeModel_rest:
  "placeModel i mi cfg t g (newGroup i cfg s) =
     s\<lparr>nodes := nodes (placeModel i mi cfg t g (newGroup i cfg s)),
       plain := plain (placeModel i mi cfg t g (newGroup i cfg s)),
       objects := objects (placeModel i mi cfg t g (newGroup i cfg s)),
       console := console (placeModel i mi cfg t g (newGroup i cfg s))\<rparr>"
  by (simp add: placeModel_def newGroup_def Let_def)

lemma loop_inv_iter:
  assumes "loop_inv i s" "i < 3"
  shows "loop_inv (Suc i)
           (placeModel i mi (MODEL_POSITIONS ! i) t (length (nodes s)) (newGroup i (MODEL_POSITIONS ! i) s))"
proof -
  let ?s' = "placeModel i mi (MODEL_POSITIONS ! i) t (length (nodes s)) (newGroup i (MODEL_POSITIONS ! i) s)"
  have li: "length (objects s) = i" and pl: "plain s = concat (map quad (take i MODEL_POSITIONS))"
    and ok: "scene_ok (nodes s) (objects s)"
    using assms by (simp_all add: loop_inv_def)
  have a: "length (plain s) = 4 * length (objects s)"
    using pl li assms(2) by (simp add: length_concat_quad)
  have 1: "length (objects ?s') = Suc i" using li by (simp add: placeModel_fields)
  have 2: "plain ?s' = concat (map quad (take (Suc i) MODEL_POSITIONS))"
    using pl assms(2) by (simp add: placeModel_fields take_Suc_conv_app_nth)
  have 3: "scene_ok (nodes ?s') (objects ?s')"
    using scene_ok_iter [OF ok, of i mi t "''carousel-item-'' @ string_of_nat i"] a li
    by (simp add: placeModel_fields)
  show ?thesis unfolding loop_inv_def using 1 2 3 by blast
qed

lemma createInstances_ok:
  assumes "loop_inv i s" "rest = drop i MODEL_POSITIONS" "ts \<noteq> []" "\<forall>x\<in>set ts. x \<noteq> None" "i \<le> 3"
  shows "\<exists>s'. createInstances i rest ts s = Inr s' \<and> loop_inv 3 s' \<and>
              s' = s\<lparr>nodes := nodes s', plain := plain s', objects := objects s', console := console s'\<rparr> \<and>
              errors_of (console s') = errors_of (console s) \<and>
              creating_of (console s') = creating_of (console s)"
  using assms
proof (induction rest arbitrary: i s)
  case Nil
  then have "i = 3" by simp
  then show ?case using Nil.prems(1) by simp
next
  case (Cons c rest')
  have i3: "i < 3" using Cons.prems(2) by (cases "i < 3") simp_all
  have c: "c = MODEL_POSITIONS ! i" and r: "rest' = drop (Suc i) MODEL_POSITIONS"
    using Cons.prems(2) i3 by (simp_all add: Cons_nth_drop_Suc [symmetric])
  have mi: "i mod length ts < length ts" using Cons.prems(3) by simp
  then obtain t where t: "ts ! (i mod length ts) = Some t"
    using Cons.prems(4) by (metis nth_mem not_None_eq)
  let ?s1 = "placeModel i (i mod length ts) c t (length (nodes s)) (newGroup i c s)"
  have inv1: "loop_inv (Suc i) ?s1" using loop_inv_iter [OF Cons.prems(1) i3] c by simp
  obtain s' where s': "createInstances (Suc i) rest' ts ?s1 = Inr s'" "loop_inv 3 s'"
    "s' = ?s1\<lparr>nodes := nodes s', plain := plain s', objects := objects s', console := console s'\<rparr>"
    "errors_of (console s') = errors_of (console ?s1)"
    "creating_of (console s') = creating_of (console ?s1)"
    using Cons.IH [OF inv1 r Cons.prems(3) Cons.prems(4)] i3 by auto
  have run: "createInstances i (c # rest') ts s = Inr s'"
    using s'(1) t Cons.prems(3) by simp
  have eq: "s' = s\<lparr>nodes := nodes s', plain := plain s', objects := objects s', console := console s'\<rparr>"
    by (subst s'(3), subst placeModel_rest) simp
  have e: "errors_of (console s') = errors_of (console s)"
    using s'(4) by (simp add: placeModel_fields errors_of_def)
  have e2: "creating_of (console s') = creating_of (console s)"
    using s'(5) by (simp add: placeModel_fields creating_of_def)
  show ?case using run s'(2) eq e e2 by blast
qed

subsection \<open>The slots of the loader\<close>

lemma count_some_update:
  "i < length xs \<Longrightarrow> xs ! i = None \<Longrightarrow> count_some (xs[i := Some v]) = Suc (count_some xs)"
proof (induction xs arbitrary: i)
  case Nil
  then show ?case by simp
next
  case (Cons x xs)
  show ?case
  proof (cases i)
    case 0
    then show ?thesis using Cons.prems by (simp add: count_some_def)
  next
    case (Suc k)
    then have "count_some (xs[k := Some v]) = Suc (count_some xs)"
      using Cons.IH [of k] Cons.prems by simp
    then show ?thesis using Suc by (simp add: count_some_def)
  qed
qed

lemma count_some_js_set:
  assumes "slot_empty xs i"
  shows "count_some (js_set xs i v) = Suc (count_some xs)"
proof (cases "i < length xs")
  case True
  then show ?thesis using assms by (simp add: js_set_def slot_empty_def count_some_update)
next
  case False
  have "filter (\<lambda>x. x \<noteq> None) (replicate (i - length xs) (None :: 'a option)) = []"
    by simp
  then show ?thesis using False by (simp add: js_set_def count_some_def)
qed

lemma length_js_set: "length (js_set xs i v) = max (length xs) (Suc i)"
  by (simp add: js_set_def)

lemma slot_empty_js_set:
  "j \<noteq> i \<Longrightarrow> slot_empty (js_set xs i v) j = slot_empty xs j"
  by (auto simp: js_set_def slot_empty_def nth_append nth_Cons' split: if_splits)

lemma count_some_le: "count_some xs \<le> length xs"
  by (simp add: count_some_def)

lemma count_some_full:
  "count_some xs = length xs \<Longrightarrow> \<forall>x\<in>set xs. x \<noteq> None"
proof (rule ccontr)
  assume a: "count_some xs = length xs" and "\<not> (\<forall>x\<in>set xs. x \<noteq> None)"
  then obtain x where "x \<in> set xs" "\<not> (x \<noteq> None)" by blast
  then have "length (filter (\<lambda>x. x \<noteq> None) xs) < length xs"
    by (rule length_filter_less)
  then show False using a by (simp add: count_some_def)
qed

lemma slot_empty_not_full:
  assumes "slot_empty xs i" "i < 3" "length xs \<le> 3"
  shows "count_some xs < 3"
proof (rule ccontr)
  assume "\<not> count_some xs < 3"
  then have c: "count_some xs = 3" and l: "length xs = 3"
    using count_some_le [of xs] assms(3) by simp_all
  then have a: "\<forall>x\<in>set xs. x \<noteq> None" using count_some_full [of xs] by simp
  have b: "xs ! i \<in> set xs" using l assms(2) by simp
  have "xs ! i = None" using assms(1,2) l by (simp add: slot_empty_def)
  then show False using a b by metis
qed

lemma full_slots:
  assumes "count_some xs = 3" "length xs \<le> 3"
  shows "xs \<noteq> [] \<and> (\<forall>x\<in>set xs. x \<noteq> None)"
proof -
  have l: "length xs = 3" using count_some_le [of xs] assms by simp
  then have "\<forall>x\<in>set xs. x \<noteq> None" using count_some_full [of xs] assms(1) by simp
  then show ?thesis using l by auto
qed

lemma nonrec_hit:
  assumes "intersectObjects h roots False ray = x # rest"
  shows "x < length h \<and> x \<in> set roots"
proof -
  have "x \<in> set (filter (\<lambda>x. x < length h \<and> x \<in> set roots \<and> n_isMesh (h ! x)) ray)"
    using assms by (simp add: intersectObjects_def)
  then show ?thesis by simp
qed


lemma mc_hover: "currentHoveredModel (onMouseClick t b s) = currentHoveredModel s"
  by (simp add: onMouseClick_def onModelClick_def Let_def split: option.splits)

subsection \<open>Ray casting and the walk up the parent chain\<close>

lemma under_no_roots: "is_under k h [] x = False"
  by (induction k arbitrary: x) (auto split: option.splits)

lemma under_valid: "is_under k h roots x \<Longrightarrow> x < length h"
  by (cases k) auto

lemma intersect_empty_roots [simp]: "intersectObjects h [] r ray = []"
  by (simp add: intersectObjects_def under_no_roots)

lemma intersect_valid: "x \<in> set (intersectObjects h roots r ray) \<Longrightarrow> x < length h"
  by (auto simp: intersectObjects_def under_valid split: if_splits)

lemma intersect_nonrec_member: "x \<in> set (intersectObjects h roots False ray) \<Longrightarrow> x \<in> set roots"
  by (auto simp: intersectObjects_def)

lemma walkUp_total:
  assumes "parents_ok h"
  shows "x < length h \<Longrightarrow>
    \<exists>r. walkUp h (Some x) = Some r \<and>
        (\<forall>m. r = Some m \<longrightarrow> m < length h \<and> ud_originalPosition (h ! m) \<noteq> None)"
proof (induction x rule: less_induct)
  case (less x)
  show ?case
  proof (cases "ud_originalPosition (h ! x) \<noteq> None")
    case True
    then have "walkUp h (Some x) = Some (Some x)" by (subst walkUp.simps) simp
    then show ?thesis using True less.prems by simp
  next
    case False
    then have w: "walkUp h (Some x) = walkUp h (n_parent (h ! x))"
      by (subst walkUp.simps) simp
    show ?thesis
    proof (cases "n_parent (h ! x)")
      case None
      then have "walkUp h (Some x) = Some None" using w by (simp add: walkUp.simps)
      then show ?thesis by simp
    next
      case (Some q)
      then have "q < x" using assms less.prems by (auto simp: parents_ok_def split: option.splits)
      then show ?thesis using less.IH [of q] less.prems w Some by simp
    qed
  qed
qed

lemma findModel_total:
  assumes "parents_ok h"
  shows "\<forall>x\<in>set hits. x < length h \<Longrightarrow>
    \<exists>r. findModel h hits = Some r \<and>
        (\<forall>m. r = Some m \<longrightarrow> m < length h \<and> ud_originalPosition (h ! m) \<noteq> None)"
proof (induction hits)
  case Nil
  then show ?case by simp
next
  case (Cons x xs)
  obtain r where r: "walkUp h (Some x) = Some r"
    "\<forall>m. r = Some m \<longrightarrow> m < length h \<and> ud_originalPosition (h ! m) \<noteq> None"
    using walkUp_total [OF assms, of x] Cons.prems by auto
  show ?case
  proof (cases r)
    case None
    then show ?thesis using r Cons by simp
  next
    case (Some m)
    then show ?thesis using r by simp
  qed
qed

lemma names_nonempty: "k < 3 \<Longrightarrow> mp_name (MODEL_POSITIONS ! k) \<noteq> []"
  by (auto simp: MODEL_POSITIONS_def nth_Cons' less_Suc_eq numeral_3_eq_3)

lemma scene_ok_member:
  assumes "scene_ok h objs" "g \<in> set objs"
  shows "\<exists>k<length objs. g = objs ! k \<and> g < length h \<and> 2 \<le> g \<and> inst_ok (h ! g) k"
  using assms by (auto simp: scene_ok_def in_set_conv_nth)

lemma scene_ok_tagged:
  assumes "scene_ok h objs" "m < length h" "ud_originalPosition (h ! m) \<noteq> None"
  shows "m \<in> set objs"
  using assms by (auto simp: scene_ok_def)

lemma scene_ok_set_scale:
  assumes "scene_ok h objs"
  shows "scene_ok (upd i (\<lambda>n. n\<lparr>n_scale := v\<rparr>) h) objs"
proof -
  let ?h = "upd i (\<lambda>n. n\<lparr>n_scale := v\<rparr>) h"
  have f: "\<And>j. n_parent (?h ! j) = n_parent (h ! j)"
    "\<And>j. ud_originalPosition (?h ! j) = ud_originalPosition (h ! j)"
    "\<And>j k. inst_ok (?h ! j) k = inst_ok (h ! j) k"
    by (simp_all add: upd_nth inst_ok_def)
  show ?thesis using assms by (simp add: scene_ok_def parents_ok_def f)
qed

subsection \<open>States that differ in scale vectors only\<close>

lemma same_static_refl [simp]: "same_static h h"
  by (simp add: same_static_def)

lemma same_static_set_scale: "same_static h (upd i (\<lambda>n. n\<lparr>n_scale := v\<rparr>) h)"
  by (simp add: same_static_def upd_nth)

lemma same_static_trans:
  assumes "same_static h h'" "same_static h' h''"
  shows "same_static h h''"
proof -
  have l: "length h' = length h" "length h'' = length h" using assms by (simp_all add: same_static_def)
  have "\<forall>j<length h. h'' ! j = (h ! j)\<lparr>n_scale := n_scale (h'' ! j)\<rparr>"
  proof (intro allI impI)
    fix j assume j: "j < length h"
    have a: "h' ! j = (h ! j)\<lparr>n_scale := n_scale (h' ! j)\<rparr>" using assms(1) j by (simp add: same_static_def)
    have b: "h'' ! j = (h' ! j)\<lparr>n_scale := n_scale (h'' ! j)\<rparr>" using assms(2) j l by (simp add: same_static_def)
    show "h'' ! j = (h ! j)\<lparr>n_scale := n_scale (h'' ! j)\<rparr>"
      by (subst b, subst a) simp
  qed
  then show ?thesis using l by (simp add: same_static_def)
qed

lemma same_static_fields:
  assumes "same_static h h'" "j < length h"
  shows "n_parent (h' ! j) = n_parent (h ! j)"
    "ud_originalPosition (h' ! j) = ud_originalPosition (h ! j)"
    "ud_originalRotation (h' ! j) = ud_originalRotation (h ! j)"
    "ud_originalScale (h' ! j) = ud_originalScale (h ! j)"
    "ud_name (h' ! j) = ud_name (h ! j)"
    "n_position (h' ! j) = n_position (h ! j)"
    "n_rotation (h' ! j) = n_rotation (h ! j)"
    "n_children (h' ! j) = n_children (h ! j)"
    "n_name (h' ! j) = n_name (h ! j)"
    "n_isMesh (h' ! j) = n_isMesh (h ! j)"
proof -
  have a: "h' ! j = (h ! j)\<lparr>n_scale := n_scale (h' ! j)\<rparr>" using assms by (simp add: same_static_def)
  show "n_parent (h' ! j) = n_parent (h ! j)" by (subst a) simp
  show "ud_originalPosition (h' ! j) = ud_originalPosition (h ! j)" by (subst a) simp
  show "ud_originalRotation (h' ! j) = ud_originalRotation (h ! j)" by (subst a) simp
  show "ud_originalScale (h' ! j) = ud_originalScale (h ! j)" by (subst a) simp
  show "ud_name (h' ! j) = ud_name (h ! j)" by (subst a) simp
  show "n_position (h' ! j) = n_position (h ! j)" by (subst a) simp
  show "n_rotation (h' ! j) = n_rotation (h ! j)" by (subst a) simp
  show "n_children (h' ! j) = n_children (h ! j)" by (subst a) simp
  show "n_name (h' ! j) = n_name (h ! j)" by (subst a) simp
  show "n_isMesh (h' ! j) = n_isMesh (h ! j)" by (subst a) simp
qed

lemma frame_refl [simp]: "frame s s"
  by (simp add: frame_def)

lemma frame_trans: "frame s s' \<Longrightarrow> frame s' s'' \<Longrightarrow> frame s s''"
  using same_static_trans by (auto simp: frame_def)

lemma set_scale_fields:
  "plain (set_scale i v s) = plain s" "objects (set_scale i v s) = objects s"
  "models (set_scale i v s) = models s" "loadedCount (set_scale i v s) = loadedCount s"
  "loadPending (set_scale i v s) = loadPending s" "clickCount (set_scale i v s) = clickCount s"
  "clickTimer (set_scale i v s) = clickTimer s" "tweens (set_scale i v s) = tweens s"
  "console (set_scale i v s) = console s" "currentHoveredModel (set_scale i v s) = currentHoveredModel s"
  "hoveredObject (set_scale i v s) = hoveredObject s"
  "nodes (set_scale i v s) = upd i (\<lambda>n. n\<lparr>n_scale := v\<rparr>) (nodes s)"
  by (simp_all add: set_scale_def)

lemma gsap_to_fields:
  "nodes (gsap_to c v d e oc s) = nodes s"
  "plain (gsap_to c v d e oc s) = plain s" "objects (gsap_to c v d e oc s) = objects s"
  "models (gsap_to c v d e oc s) = models s" "loadedCount (gsap_to c v d e oc s) = loadedCount s"
  "loadPending (gsap_to c v d e oc s) = loadPending s" "clickCount (gsap_to c v d e oc s) = clickCount s"
  "clickTimer (gsap_to c v d e oc s) = clickTimer s"
  "console (gsap_to c v d e oc s) = console s" "currentHoveredModel (gsap_to c v d e oc s) = currentHoveredModel s"
  "hoveredObject (gsap_to c v d e oc s) = hoveredObject s"
  "tweens (gsap_to c v d e oc s) =
     tweens s @ [\<lparr>tw_target = c, tw_x = v, tw_y = v, tw_z = v, tw_duration = d, tw_ease = e, tw_onComplete = oc\<rparr>]"
  by (simp_all add: gsap_to_def)

text \<open>The invariant depends on these fields only.\<close>

lemma inv_cong:
  assumes "inv s"
    and "loadedCount s' = loadedCount s" "models s' = models s" "loadPending s' = loadPending s"
    and "timer_ok s'"
    and "objects s' = objects s" "plain s' = plain s" "same_static (nodes s) (nodes s')"
    and "loadedCount s < 3 \<Longrightarrow> nodes s' = nodes s \<and> currentHoveredModel s' = None \<and>
           hoveredObject s' = None \<and> tweens s' = [] \<and> creating_of (console s') = []"
    and "3 \<le> loadedCount s \<Longrightarrow>
           (case currentHoveredModel s' of None \<Rightarrow> True | Some c \<Rightarrow> c \<in> set (objects s)) \<and>
           (case hoveredObject s' of None \<Rightarrow> True | Some c \<Rightarrow> c \<in> set (objects s))"
  shows "inv s'"
proof -
  have 1: "slots_ok s'" using assms(1-4) by (simp add: inv_def slots_ok_def)
  have 2: "timer_ok s'" using assms(5) .
  have 3: "if loadedCount s' < 3 then prebuilt s' else built s'"
  proof (cases "loadedCount s < 3")
    case True
    then have "prebuilt s" using assms(1) by (simp add: inv_def)
    then have "prebuilt s'" using assms(9) [OF True] assms(6,7) by (simp add: prebuilt_def)
    then show ?thesis using True assms(2) by simp
  next
    case False
    then have b: "built s" using assms(1) by (simp add: inv_def)
    then have ok: "scene_ok (nodes s) (objects s)" by (simp add: built_def loop_inv_def)
    have l: "length (nodes s') = length (nodes s)" using assms(8) by (simp add: same_static_def)
    have f: "\<And>j. j < length (nodes s) \<Longrightarrow> n_parent (nodes s' ! j) = n_parent (nodes s ! j)"
      "\<And>j. j < length (nodes s) \<Longrightarrow> ud_originalPosition (nodes s' ! j) = ud_originalPosition (nodes s ! j)"
      "\<And>j k. j < length (nodes s) \<Longrightarrow> inst_ok (nodes s' ! j) k = inst_ok (nodes s ! j) k"
      using same_static_fields [OF assms(8)] by (simp_all add: inst_ok_def)
    have ok': "scene_ok (nodes s') (objects s)"
      using ok l f unfolding scene_ok_def parents_ok_def by auto
    have "built s'"
      using b ok' assms(6,7) assms(10) False by (auto simp: built_def loop_inv_def split: option.splits)
    then show ?thesis using False assms(2) by simp
  qed
  show ?thesis using 1 2 3 by (simp add: inv_def)
qed

subsection \<open>The outcomes of handleHover\<close>

lemma resetHovered_fields:
  "nodes (resetHovered c s) = nodes s"
  "plain (resetHovered c s) = plain s" "objects (resetHovered c s) = objects s"
  "models (resetHovered c s) = models s" "loadedCount (resetHovered c s) = loadedCount s"
  "loadPending (resetHovered c s) = loadPending s" "clickCount (resetHovered c s) = clickCount s"
  "clickTimer (resetHovered c s) = clickTimer s"
  "console (resetHovered c s) = console s" "currentHoveredModel (resetHovered c s) = currentHoveredModel s"
  "hoveredObject (resetHovered c s) = hoveredObject s"
  "tweens (resetHovered c s) =
     tweens s @ [\<lparr>tw_target = c, tw_x = num_or_undefined (ud_originalScale (nodes s ! c)),
                   tw_y = num_or_undefined (ud_originalScale (nodes s ! c)),
                   tw_z = num_or_undefined (ud_originalScale (nodes s ! c)),
                   tw_duration = 3/10, tw_ease = Some ''power2.out'', tw_onComplete = False\<rparr>]"
  by (simp_all add: resetHovered_def gsap_to_fields)

lemma handleHover_none:
  assumes "intersectObjects (nodes s) (objects s) True ray = [] \<or>
           findModel (nodes s) (intersectObjects (nodes s) (objects s) True ray) = Some None"
  shows "handleHover ray s = Some (unhover s)"
  using assms
  by (cases "currentHoveredModel s")
     (auto simp: handleHover_def unhover_def Let_def)

lemma handleHover_same:
  assumes "intersectObjects (nodes s) (objects s) True ray \<noteq> []"
    and "findModel (nodes s) (intersectObjects (nodes s) (objects s) True ray) = Some (Some m)"
    and "currentHoveredModel s = Some m"
  shows "handleHover ray s = Some s"
  using assms by (simp add: handleHover_def Let_def)

lemma handleHover_found:
  assumes "intersectObjects (nodes s) (objects s) True ray \<noteq> []"
    and "findModel (nodes s) (intersectObjects (nodes s) (objects s) True ray) = Some (Some m)"
    and "currentHoveredModel s \<noteq> Some m"
    and "\<not> falsy_name (ud_name (nodes s ! m))"
  shows "handleHover ray s = Some (rehover m s)"
  using assms
  by (cases "currentHoveredModel s")
     (simp_all add: handleHover_def rehover_def Let_def resetHovered_fields gsap_to_fields)

lemma unhover_fields:
  "nodes (unhover s) = nodes s"
  "plain (unhover s) = plain s" "objects (unhover s) = objects s"
  "models (unhover s) = models s" "loadedCount (unhover s) = loadedCount s"
  "loadPending (unhover s) = loadPending s" "clickCount (unhover s) = clickCount s"
  "clickTimer (unhover s) = clickTimer s"
  "console (unhover s) = console s" "currentHoveredModel (unhover s) = None"
  "hoveredObject (unhover s) = hoveredObject s"
  by (cases "currentHoveredModel s"; simp add: unhover_def resetHovered_fields)+


lemma rehover_fields:
  "nodes (rehover m s) = nodes s"
  "plain (rehover m s) = plain s" "objects (rehover m s) = objects s"
  "models (rehover m s) = models s" "loadedCount (rehover m s) = loadedCount s"
  "loadPending (rehover m s) = loadPending s" "clickCount (rehover m s) = clickCount s"
  "clickTimer (rehover m s) = clickTimer s"
  "console (rehover m s) = console s" "currentHoveredModel (rehover m s) = Some m"
  "hoveredObject (rehover m s) = hoveredObject s"
  by (cases "currentHoveredModel s"; simp add: rehover_def resetHovered_fields gsap_to_fields)+

subsection \<open>Every event preserves the invariant\<close>

lemma inv_timer: "inv s \<Longrightarrow> timer_ok s"
  by (simp add: inv_def)

lemma inv_prebuilt: "inv s \<Longrightarrow> loadedCount s < 3 \<Longrightarrow> prebuilt s"
  by (simp add: inv_def)

lemma inv_built: "inv s \<Longrightarrow> 3 \<le> loadedCount s \<Longrightarrow> built s"
  by (simp add: inv_def)

lemma inv_loaded_le: "inv s \<Longrightarrow> loadedCount s \<le> 3"
  using count_some_le [of "models s"] by (simp add: inv_def slots_ok_def)

lemma built_scene: "built s \<Longrightarrow> scene_ok (nodes s) (objects s)"
  by (simp add: built_def loop_inv_def)

lemma built_instance_name:
  assumes "built s" "m \<in> set (objects s)"
  shows "\<not> falsy_name (ud_name (nodes s ! m))"
proof -
  obtain k where k: "k < length (objects s)" "inst_ok (nodes s ! m) k"
    using scene_ok_member [OF built_scene [OF assms(1)] assms(2)] by blast
  have "k < 3" using k(1) assms(1) by (simp add: built_def loop_inv_def)
  then show ?thesis using k(2) names_nonempty [of k] by (simp add: inst_ok_def falsy_name_def Let_def)
qed

lemma hover_inv:
  assumes "inv s"
  shows "\<exists>s'. handleHover ray s = Some s' \<and> inv s' \<and> frame s s' \<and> nodes s' = nodes s \<and>
              clickCount s' = clickCount s \<and> clickTimer s' = clickTimer s \<and>
              console s' = console s \<and> hoveredObject s' = hoveredObject s"
proof (cases "loadedCount s < 3")
  case True
  then have p: "prebuilt s" using assms by (simp add: inv_def)
  then have "intersectObjects (nodes s) (objects s) True ray = []" by (simp add: prebuilt_def)
  then have "handleHover ray s = Some (unhover s)" by (simp add: handleHover_none)
  moreover have "unhover s = s" using p by (simp add: unhover_def prebuilt_def)
  ultimately show ?thesis using assms by simp
next
  case False
  then have b: "built s" using assms by (simp add: inv_def)
  have ok: "scene_ok (nodes s) (objects s)" using b by (rule built_scene)
  have po: "parents_ok (nodes s)" using ok by (simp add: scene_ok_def)
  let ?I = "intersectObjects (nodes s) (objects s) True ray"
  have unh: "inv (unhover s) \<and> frame s (unhover s)"
  proof -
    have "inv (unhover s)"
      by (rule inv_cong [OF assms])
         (use assms False in \<open>simp_all add: unhover_fields inv_def timer_ok_def built_def split: option.splits\<close>)
    then show ?thesis by (simp add: frame_def unhover_fields)
  qed
  have valid: "\<forall>x\<in>set ?I. x < length (nodes s)" using intersect_valid by blast
  obtain r where r: "findModel (nodes s) ?I = Some r"
    "\<forall>m. r = Some m \<longrightarrow> m < length (nodes s) \<and> ud_originalPosition (nodes s ! m) \<noteq> None"
    using findModel_total [OF po valid] by blast
  show ?thesis
  proof (cases "?I = [] \<or> r = None")
    case True
    then have "handleHover ray s = Some (unhover s)" using r handleHover_none by auto
    then show ?thesis using unh by (simp add: unhover_fields)
  next
    case F2: False
    then obtain m where m: "r = Some m" "?I \<noteq> []" by auto
    then have mo: "m \<in> set (objects s)" using r(2) scene_ok_tagged [OF ok] by simp
    show ?thesis
    proof (cases "currentHoveredModel s = Some m")
      case True
      then have "handleHover ray s = Some s" using m r(1) handleHover_same by simp
      then show ?thesis using assms by simp
    next
      case F3: False
      have hh: "handleHover ray s = Some (rehover m s)"
        using handleHover_found [OF m(2) _ F3 built_instance_name [OF b mo]] r(1) m(1) by simp
      have "inv (rehover m s)"
        by (rule inv_cong [OF assms])
           (use assms False mo b in \<open>simp_all add: rehover_fields inv_def timer_ok_def built_def split: option.splits\<close>)
      then show ?thesis using hh by (simp add: frame_def rehover_fields)
    qed
  qed
qed

lemma mc_more_fields:
  "plain (onMouseClick t b s) = plain s" "models (onMouseClick t b s) = models s"
  "loadedCount (onMouseClick t b s) = loadedCount s" "loadPending (onMouseClick t b s) = loadPending s"
  "tweens (onMouseClick t b s) = tweens s" "console (onMouseClick t b s) = console s"
  "hoveredObject (onMouseClick t b s) = hoveredObject s"
  by (simp_all add: onMouseClick_def onModelClick_def Let_def split: option.splits)

lemma wc_more_fields:
  "plain (onWindowClick t r s) = plain s" "models (onWindowClick t r s) = models s"
  "loadedCount (onWindowClick t r s) = loadedCount s" "loadPending (onWindowClick t r s) = loadPending s"
  "tweens (onWindowClick t r s) = tweens s" "console (onWindowClick t r s) = console s"
  "hoveredObject (onWindowClick t r s) = hoveredObject s"
  by (simp_all add: onWindowClick_def Let_def)

lemma timer_more_fields:
  "plain (onClickTimer t s) = plain s" "models (onClickTimer t s) = models s"
  "loadedCount (onClickTimer t s) = loadedCount s" "loadPending (onClickTimer t s) = loadPending s"
  "tweens (onClickTimer t s) = tweens s" "console (onClickTimer t s) = console s"
  "hoveredObject (onClickTimer t s) = hoveredObject s"
  "currentHoveredModel (onClickTimer t s) = currentHoveredModel s"
  by (simp_all add: onClickTimer_def split: option.splits)

lemma mc_timer_ok: "timer_ok s \<Longrightarrow> timer_ok (onMouseClick t b s)"
  by (cases "currentHoveredModel s")
     (auto simp: onMouseClick_def onModelClick_def Let_def timer_ok_def split: if_splits)

lemma timer_timer_ok: "timer_ok s \<Longrightarrow> timer_ok (onClickTimer t s)"
  by (auto simp: onClickTimer_def timer_ok_def split: option.splits)

lemma inv_hover_refs:
  assumes "inv s" "3 \<le> loadedCount s"
  shows "(case currentHoveredModel s of None \<Rightarrow> True | Some c \<Rightarrow> c \<in> set (objects s)) \<and>
         (case hoveredObject s of None \<Rightarrow> True | Some c \<Rightarrow> c \<in> set (objects s))"
  using assms by (simp add: inv_def built_def)

lemma inv_pre_fields:
  assumes "inv s" "loadedCount s < 3"
  shows "currentHoveredModel s = None" "hoveredObject s = None" "tweens s = []"
    "creating_of (console s) = []" "objects s = []" "plain s = []" "nodes s = nodes init"
  using assms by (simp_all add: inv_def prebuilt_def)

lemma click_inv:
  assumes "inv s"
  shows "inv (onWindowClick t ray (onMouseClick t b s)) \<and> frame s (onWindowClick t ray (onMouseClick t b s))"
proof -
  let ?s' = "onWindowClick t ray (onMouseClick t b s)"
  have t: "timer_ok ?s'"
    using mc_timer_ok [OF inv_timer [OF assms], of t b] by (simp add: timer_ok_def wc_fields)
  have "inv ?s'"
    by (rule inv_cong [OF assms])
       (use t inv_hover_refs [OF assms] inv_pre_fields [OF assms] in
         \<open>simp_all add: wc_fields wc_more_fields mc_fields mc_more_fields mc_hover\<close>)
  then show ?thesis by (simp add: frame_def wc_fields wc_more_fields mc_fields mc_more_fields)
qed

lemma timer_inv:
  assumes "inv s"
  shows "inv (onClickTimer t s) \<and> frame s (onClickTimer t s)"
proof -
  have "inv (onClickTimer t s)"
    by (rule inv_cong [OF assms])
       (use timer_timer_ok [OF inv_timer [OF assms], of t] inv_hover_refs [OF assms] inv_pre_fields [OF assms] in
         \<open>simp_all add: timer_fields timer_more_fields\<close>)
  then show ?thesis by (simp add: frame_def timer_fields timer_more_fields)
qed

lemma mouseout_cases:
  "onMouseOut l s = s \<or>
   (\<exists>c v. currentHoveredModel s = Some c \<and> onMouseOut l s = gsap_to c v (3/10) (Some ''power2.out'') True s)"
  by (cases "currentHoveredModel s") (auto simp: onMouseOut_def)

lemma mouseout_inv:
  assumes "inv s"
  shows "inv (onMouseOut l s) \<and> frame s (onMouseOut l s)"
proof -
  from mouseout_cases [of l s] show ?thesis
  proof
    assume "onMouseOut l s = s"
    then show ?thesis using assms by simp
  next
    assume "\<exists>c v. currentHoveredModel s = Some c \<and> onMouseOut l s = gsap_to c v (3/10) (Some ''power2.out'') True s"
    then obtain c v where c: "currentHoveredModel s = Some c"
      "onMouseOut l s = gsap_to c v (3/10) (Some ''power2.out'') True s" by blast
    have "inv (gsap_to c v (3/10) (Some ''power2.out'') True s)"
      by (rule inv_cong [OF assms])
         (use c inv_timer [OF assms] inv_hover_refs [OF assms] inv_pre_fields [OF assms] in
           \<open>simp_all add: gsap_to_fields timer_ok_def\<close>)
    then show ?thesis using c by (simp add: frame_def gsap_to_fields)
  qed
qed

lemma blur_cases:
  "onBlur s = s \<or>
   (\<exists>c v. hoveredObject s \<noteq> None \<and>
      onBlur s = (gsap_to c v (3/10) None False s)\<lparr>hoveredObject := None, isHovering := False\<rparr>)"
  by (cases "hoveredObject s") (auto simp: onBlur_def split: list.splits)

lemma blur_inv:
  assumes "inv s"
  shows "inv (onBlur s) \<and> frame s (onBlur s)"
proof -
  from blur_cases [of s] show ?thesis
  proof
    assume "onBlur s = s"
    then show ?thesis using assms by simp
  next
    assume "\<exists>c v. hoveredObject s \<noteq> None \<and>
      onBlur s = (gsap_to c v (3/10) None False s)\<lparr>hoveredObject := None, isHovering := False\<rparr>"
    then obtain c v where c: "hoveredObject s \<noteq> None"
      "onBlur s = (gsap_to c v (3/10) None False s)\<lparr>hoveredObject := None, isHovering := False\<rparr>" by blast
    have "inv ((gsap_to c v (3/10) None False s)\<lparr>hoveredObject := None, isHovering := False\<rparr>)"
      by (rule inv_cong [OF assms])
         (use c inv_timer [OF assms] inv_hover_refs [OF assms] inv_pre_fields [OF assms] in
           \<open>auto simp: gsap_to_fields timer_ok_def\<close>)
    then show ?thesis using c by (simp add: frame_def gsap_to_fields)
  qed
qed

lemma inv_set_scale:
  assumes "inv s" "loadedCount s < 3 \<Longrightarrow> False"
  shows "inv (set_scale i v s)"
  by (rule inv_cong [OF assms(1)])
     (use assms(2) inv_timer [OF assms(1)] inv_hover_refs [OF assms(1)] in
       \<open>auto simp: set_scale_fields timer_ok_def same_static_set_scale\<close>)

lemma frame_set_scale: "frame s (set_scale i v s)"
  by (simp add: frame_def set_scale_fields same_static_set_scale)

lemma inv_console:
  assumes "inv s" "creating_of (console s @ ls) = creating_of (console s)"
  shows "inv (s\<lparr>console := console s @ ls\<rparr>)"
  by (rule inv_cong [OF assms(1)])
     (use assms(2) inv_timer [OF assms(1)] inv_hover_refs [OF assms(1)] inv_pre_fields [OF assms(1)] in
       \<open>auto simp: timer_ok_def\<close>)

lemma inv_hovered:
  assumes "inv s" "loadedCount s < 3 \<Longrightarrow> x = None"
    "\<And>c. x = Some c \<Longrightarrow> c \<in> set (objects s)"
  shows "inv (s\<lparr>hoveredObject := x\<rparr>)"
  by (rule inv_cong [OF assms(1)])
     (use assms(2,3) inv_timer [OF assms(1)] inv_hover_refs [OF assms(1)] inv_pre_fields [OF assms(1)] in
       \<open>auto simp: timer_ok_def split: option.splits\<close>)

lemma inv_current_none:
  assumes "inv s"
  shows "inv (s\<lparr>currentHoveredModel := None\<rparr>)"
  by (rule inv_cong [OF assms(1)])
     (use inv_timer [OF assms(1)] inv_hover_refs [OF assms(1)] inv_pre_fields [OF assms(1)] in
       \<open>auto simp: timer_ok_def split: option.splits\<close>)

lemma inv_tweens:
  assumes "inv s" "loadedCount s < 3 \<Longrightarrow> tw = []"
  shows "inv (s\<lparr>tweens := tw\<rparr>)"
  by (rule inv_cong [OF assms(1)])
     (use assms(2) inv_timer [OF assms(1)] inv_hover_refs [OF assms(1)] inv_pre_fields [OF assms(1)] in
       \<open>auto simp: timer_ok_def split: option.splits\<close>)

lemma frame_simple [simp]:
  "frame s (s\<lparr>console := c\<rparr>)" "frame s (s\<lparr>hoveredObject := x\<rparr>)"
  "frame s (s\<lparr>currentHoveredModel := y\<rparr>)" "frame s (s\<lparr>tweens := tw\<rparr>)"
  "frame s (s\<lparr>loadPending := lp\<rparr>)"
  by (simp_all add: frame_def)

lemma animate_inv:
  assumes "inv s"
  shows "inv (animate ray s) \<and> frame s (animate ray s)"
proof (cases "loadedCount s < 3")
  case True
  have "intersectObjects (nodes s) (objects s) False ray = []"
    using inv_pre_fields [OF assms True] by simp
  then have a: "animate ray s = s\<lparr>console := console s @ [LogFPS]\<rparr>"
    using inv_pre_fields [OF assms True] by (simp add: animate_def)
  show ?thesis unfolding a using inv_console [OF assms, of "[LogFPS]"] by (simp add: creating_of_def)
next
  case False
  let ?I = "intersectObjects (nodes s) (objects s) False ray"
  define s3 where "s3 =
     (case ?I of
        x # _ \<Rightarrow>
          (let s1 = (case hoveredObject s of
                       Some ho \<Rightarrow> (if ho \<noteq> x then set_scale ho (1, 1, 1) s else s)
                     | None \<Rightarrow> s);
               s2 = s1\<lparr>hoveredObject := Some x\<rparr>
           in set_scale x (27/25, 27/25, 27/25) s2)
      | [] \<Rightarrow>
          (case hoveredObject s of
             Some ho \<Rightarrow> (set_scale ho (1, 1, 1) s)\<lparr>hoveredObject := None\<rparr>
           | None \<Rightarrow> s))"
  have a: "animate ray s = s3\<lparr>console := console s3 @ [LogFPS]\<rparr>"
    by (simp add: animate_def s3_def Let_def)
  have s3: "inv s3 \<and> frame s s3"
  proof (cases ?I)
    case Nil
    show ?thesis
    proof (cases "hoveredObject s")
      case None
      then show ?thesis using Nil assms by (simp add: s3_def)
    next
      case (Some ho)
      have i1: "inv (set_scale ho (1, 1, 1) s)" using inv_set_scale [OF assms] False by blast
      have "inv ((set_scale ho (1, 1, 1) s)\<lparr>hoveredObject := None\<rparr>)"
        by (rule inv_hovered [OF i1]) simp_all
      moreover have "frame s ((set_scale ho (1, 1, 1) s)\<lparr>hoveredObject := None\<rparr>)"
        using frame_trans [OF frame_set_scale frame_simple(2)] .
      ultimately show ?thesis using Nil Some by (simp add: s3_def)
    qed
  next
    case (Cons x rest)
    have xo: "x \<in> set (objects s)" using nonrec_hit [OF Cons] by simp
    define s1 where "s1 = (case hoveredObject s of
                       Some ho \<Rightarrow> (if ho \<noteq> x then set_scale ho (1, 1, 1) s else s)
                     | None \<Rightarrow> s)"
    have s1: "inv s1 \<and> frame s s1 \<and> objects s1 = objects s \<and> loadedCount s1 = loadedCount s"
      using assms inv_set_scale [OF assms] False frame_set_scale
      by (auto simp: s1_def set_scale_fields split: option.splits)
    have i2: "inv (s1\<lparr>hoveredObject := Some x\<rparr>)"
      by (rule inv_hovered) (use s1 xo False in auto)
    have i3: "inv (set_scale x (27/25, 27/25, 27/25) (s1\<lparr>hoveredObject := Some x\<rparr>))"
      by (rule inv_set_scale [OF i2]) (use s1 False in simp)
    have f3: "frame s (set_scale x (27/25, 27/25, 27/25) (s1\<lparr>hoveredObject := Some x\<rparr>))"
      using frame_trans [OF frame_trans [OF conjunct1 [OF conjunct2 [OF s1]] frame_simple(2)] frame_set_scale] .
    have "s3 = set_scale x (27/25, 27/25, 27/25) (s1\<lparr>hoveredObject := Some x\<rparr>)"
      using Cons by (simp add: s3_def s1_def Let_def)
    then show ?thesis using i3 f3 by simp
  qed
  have "inv (s3\<lparr>console := console s3 @ [LogFPS]\<rparr>)"
    using inv_console [OF conjunct1 [OF s3], of "[LogFPS]"] by (simp add: creating_of_def)
  moreover have "frame s (s3\<lparr>console := console s3 @ [LogFPS]\<rparr>)"
    using frame_trans [OF conjunct2 [OF s3] frame_simple(1)] .
  ultimately show ?thesis unfolding a by simp
qed

lemma tweenUpdate_inv:
  assumes "inv s"
  shows "inv (tweenUpdate k v s) \<and> frame s (tweenUpdate k v s)"
proof (cases "k < length (tweens s)")
  case True
  then have "\<not> loadedCount s < 3" using inv_pre_fields(3) [OF assms] by auto
  then show ?thesis using True inv_set_scale [OF assms] frame_set_scale by (auto simp: tweenUpdate_def)
next
  case False
  then show ?thesis using assms by (simp add: tweenUpdate_def)
qed

lemma tweenComplete_inv:
  assumes "inv s"
  shows "inv (tweenComplete k s) \<and> frame s (tweenComplete k s)"
proof (cases "k < length (tweens s)")
  case True
  then have nb: "\<not> loadedCount s < 3" using inv_pre_fields(3) [OF assms] by auto
  let ?tw = "tweens s ! k"
  define s1 where "s1 = (case (tw_x ?tw, tw_y ?tw, tw_z ?tw) of
                    (Num x, Num y, Num z) \<Rightarrow> set_scale (tw_target ?tw) (x, y, z) s
                  | _ \<Rightarrow> s)"
  have s1: "inv s1 \<and> frame s s1 \<and> loadedCount s1 = loadedCount s"
    using assms inv_set_scale [OF assms] nb frame_set_scale
    by (auto simp: s1_def set_scale_fields split: jnum.splits)
  define s2 where "s2 = s1\<lparr>tweens := take k (tweens s1) @ drop (Suc k) (tweens s1)\<rparr>"
  have s2: "inv s2 \<and> frame s s2"
    unfolding s2_def using inv_tweens [of s1] s1 nb frame_trans [OF _ frame_simple(4)] by auto
  have s2c: "inv (s2\<lparr>currentHoveredModel := None\<rparr>) \<and> frame s (s2\<lparr>currentHoveredModel := None\<rparr>)"
    using inv_current_none s2 frame_trans [OF _ frame_simple(3)] by blast
  have "tweenComplete k s = (if tw_onComplete ?tw then s2\<lparr>currentHoveredModel := None\<rparr> else s2)"
    using True by (simp add: tweenComplete_def s2_def s1_def Let_def)
  then show ?thesis using s2 s2c by simp
next
  case False
  then show ?thesis using assms by (simp add: tweenComplete_def)
qed

lemma loadFail_inv:
  assumes "inv s"
  shows "inv (s\<lparr>loadPending := (loadPending s)[i := False]\<rparr>)"
proof -
  have "\<And>j. j < 3 \<Longrightarrow> (loadPending s)[i := False] ! j \<Longrightarrow> loadPending s ! j"
    by (case_tac "j = i"; case_tac "i < length (loadPending s)") (auto simp: list_update_beyond)
  then have "slots_ok (s\<lparr>loadPending := (loadPending s)[i := False]\<rparr>)"
    using assms by (auto simp: inv_def slots_ok_def)
  then show ?thesis using assms
    by (auto simp: inv_def timer_ok_def prebuilt_def built_def loop_inv_def split: option.splits)
qed

lemma windowError_inv:
  assumes "inv s"
  shows "inv (s\<lparr>console := console s @ [ErrThree]\<rparr>)"
  using inv_console [OF assms, of "[ErrThree]"] by (simp add: creating_of_def)

lemma scene_ok_init: "scene_ok (nodes init) []"
  by (auto simp: scene_ok_def parents_ok_def init_def new_object_def scene_id_def nth_Cons'
      less_Suc_eq numeral_2_eq_2 split: option.splits)

lemma inv_init: "inv init"
  by (simp add: inv_def slots_ok_def timer_ok_def prebuilt_def init_def count_some_def slot_empty_def
      creating_of_def)

lemma length_MODEL_PATHS [simp]: "length MODEL_PATHS = 3"
  by (simp add: MODEL_PATHS_def)

lemma onLoad_inv:
  assumes "inv s" "i < 3" "loadPending s ! i"
  shows "inv (onLoad i t (s\<lparr>loadPending := (loadPending s)[i := False]\<rparr>)) \<and>
         errors_of (console (onLoad i t (s\<lparr>loadPending := (loadPending s)[i := False]\<rparr>))) =
           errors_of (console s) \<and>
         models (onLoad i t (s\<lparr>loadPending := (loadPending s)[i := False]\<rparr>)) = js_set (models s) i t \<and>
         loadedCount (onLoad i t (s\<lparr>loadPending := (loadPending s)[i := False]\<rparr>)) = Suc (loadedCount s) \<and>
         clickCount (onLoad i t (s\<lparr>loadPending := (loadPending s)[i := False]\<rparr>)) = clickCount s \<and>
         clickTimer (onLoad i t (s\<lparr>loadPending := (loadPending s)[i := False]\<rparr>)) = clickTimer s \<and>
         hoveredObject (onLoad i t (s\<lparr>loadPending := (loadPending s)[i := False]\<rparr>)) = hoveredObject s"
proof -
  let ?s0 = "s\<lparr>loadPending := (loadPending s)[i := False]\<rparr>"
  let ?s1 = "?s0\<lparr>models := js_set (models ?s0) i t, loadedCount := loadedCount ?s0 + 1\<rparr>"
  have so: "slots_ok s" using assms(1) by (simp add: inv_def)
  have se: "slot_empty (models s) i" using so assms(2,3) by (simp add: slots_ok_def)
  have lt: "loadedCount s < 3"
    using slot_empty_not_full [OF se assms(2)] so by (simp add: slots_ok_def)
  have pre: "prebuilt s" using assms(1) lt by (simp add: inv_def)
  have tm: "timer_ok s" using assms(1) by (simp add: inv_def)
  have pend: "\<And>j. j < 3 \<Longrightarrow> (loadPending s)[i := False] ! j \<Longrightarrow> j \<noteq> i \<and> loadPending s ! j"
    using so assms(2) by (case_tac "j = i") (auto simp: slots_ok_def)
  have so1: "slots_ok ?s1"
    unfolding slots_ok_def
  proof (intro conjI allI impI)
    show "length (loadPending ?s1) = 3" using so by (simp add: slots_ok_def)
    show "length (models ?s1) \<le> 3" using so assms(2) by (simp add: slots_ok_def length_js_set)
    show "loadedCount ?s1 = count_some (models ?s1)"
      using so count_some_js_set [OF se, of t] by (simp add: slots_ok_def)
  next
    fix j assume j: "j < 3" "loadPending ?s1 ! j"
    then have "j \<noteq> i \<and> loadPending s ! j" using pend [of j] by simp
    then show "slot_empty (models ?s1) j"
      using so j(1) by (simp add: slots_ok_def slot_empty_js_set)
  qed
  have lc1: "loadedCount ?s1 = Suc (loadedCount s)" by simp
  show ?thesis
  proof (cases "loadedCount ?s1 = 3")
    case False
    then have l1: "loadedCount ?s1 < 3" using lt by simp
    have o: "onLoad i t ?s0 = ?s1" using False by (simp add: onLoad_def Let_def)
    have "prebuilt ?s1" using pre by (simp add: prebuilt_def)
    then have "inv ?s1" using so1 tm l1 by (simp add: inv_def timer_ok_def)
    then show ?thesis unfolding o by simp
  next
    case True
    let ?s1' = "?s1\<lparr>console := console ?s1 @ [LogCreating], objects := []\<rparr>"
    have full: "models ?s1 \<noteq> [] \<and> (\<forall>x\<in>set (models ?s1). x \<noteq> None)"
      using full_slots [of "models ?s1"] so1 True by (simp add: slots_ok_def)
    have li: "loop_inv 0 ?s1'"
      using pre scene_ok_init by (simp add: loop_inv_def prebuilt_def)
    obtain s' where s': "createInstances 0 (drop 0 MODEL_POSITIONS) (models ?s1) ?s1' = Inr s'"
      "loop_inv 3 s'"
      "s' = ?s1'\<lparr>nodes := nodes s', plain := plain s', objects := objects s', console := console s'\<rparr>"
      "errors_of (console s') = errors_of (console ?s1')"
      using createInstances_ok [OF li refl, of "models ?s1"] full by auto
    have cc: "createCarousel (models ?s1) ?s1 = Inr s'"
      using s'(1) by (simp add: createCarousel_def)
    have o: "onLoad i t ?s0 = s'" using True cc by (simp add: onLoad_def Let_def)
    have f: "models s' = models ?s1" "loadPending s' = loadPending ?s1" "loadedCount s' = loadedCount ?s1"
      "clickCount s' = clickCount s" "clickTimer s' = clickTimer s"
      "currentHoveredModel s' = currentHoveredModel s" "hoveredObject s' = hoveredObject s"
      by (subst s'(3), simp)+
    have so': "slots_ok s'" using so1 f by (simp add: slots_ok_def)
    have tm': "timer_ok s'" using tm f by (simp add: timer_ok_def)
    have b: "built s'" using s'(2) f pre by (simp add: built_def prebuilt_def)
    have "inv s'" using so' tm' b f True by (simp add: inv_def)
    moreover have "errors_of (console s') = errors_of (console s)"
      using s'(4) by (simp add: errors_of_def)
    ultimately show ?thesis unfolding o using f by simp
  qed
qed

lemma step_inv:
  assumes "inv s"
  shows "\<exists>s'. step e s = Some s' \<and> inv s'"
proof (cases e)
  case (LoadOk i t)
  then show ?thesis using assms onLoad_inv [OF assms, of i t] by auto
next
  case (LoadFail i)
  then show ?thesis using assms loadFail_inv [OF assms, of i] by auto
next
  case (MouseMove ray)
  then show ?thesis using hover_inv [OF assms, of ray] by auto
next
  case (Click t b ray)
  then show ?thesis using click_inv [OF assms, of t ray b] by simp
next
  case (TimerFire t)
  then show ?thesis using timer_inv [OF assms, of t] by simp
next
  case (MouseOut l)
  then show ?thesis using mouseout_inv [OF assms, of l] by simp
next
  case Blur
  then show ?thesis using blur_inv [OF assms] by simp
next
  case (Frame ray)
  then show ?thesis using animate_inv [OF assms, of ray] by simp
next
  case (TweenUpdate k v)
  then show ?thesis using tweenUpdate_inv [OF assms, of k v] by simp
next
  case (TweenComplete k)
  then show ?thesis using tweenComplete_inv [OF assms, of k] by simp
next
  case WindowError
  then show ?thesis using windowError_inv [OF assms] by simp
qed

lemma run_inv:
  "inv s \<Longrightarrow> \<exists>s'. run evs s = Some s' \<and> inv s'"
proof (induction evs arbitrary: s)
  case Nil
  then show ?case by simp
next
  case (Cons e es)
  obtain s1 where s1: "step e s = Some s1" "inv s1" using step_inv [OF Cons.prems] by blast
  then show ?case using Cons.IH [OF s1(2)] by simp
qed

lemma run_append:
  "run (xs @ ys) s = (case run xs s of None \<Rightarrow> None | Some s' \<Rightarrow> run ys s')"
  by (induction xs arbitrary: s) (auto split: option.splits)

text \<open>Once the counter has reached the number of paths, no event moves the carousel.\<close>

lemma step_frame:
  assumes "inv s" "3 \<le> loadedCount s" "step e s = Some s'"
  shows "frame s s'"
proof (cases e)
  case (LoadOk i t)
  have "\<not> (i < 3 \<and> loadPending s ! i)"
  proof
    assume a: "i < 3 \<and> loadPending s ! i"
    have so: "slots_ok s" using assms(1) by (simp add: inv_def)
    then have se: "slot_empty (models s) i" using a by (simp add: slots_ok_def)
    have i3: "i < 3" using a by simp
    have l3: "length (models s) \<le> 3" using so by (simp add: slots_ok_def)
    have "count_some (models s) < 3" using slot_empty_not_full [OF se i3 l3] .
    then show False using so assms(2) by (simp add: slots_ok_def)
  qed
  then show ?thesis using LoadOk assms(3) by auto
next
  case (LoadFail i)
  then show ?thesis using assms(3) by (auto split: if_splits)
next
  case (MouseMove ray)
  then show ?thesis using hover_inv [OF assms(1), of ray] assms(3) by auto
next
  case (Click t b ray)
  then show ?thesis using click_inv [OF assms(1), of t ray b] assms(3) by auto
next
  case (TimerFire t)
  then show ?thesis using timer_inv [OF assms(1), of t] assms(3) by auto
next
  case (MouseOut l)
  then show ?thesis using mouseout_inv [OF assms(1), of l] assms(3) by auto
next
  case Blur
  then show ?thesis using blur_inv [OF assms(1)] assms(3) by auto
next
  case (Frame ray)
  then show ?thesis using animate_inv [OF assms(1), of ray] assms(3) by auto
next
  case (TweenUpdate k v)
  then show ?thesis using tweenUpdate_inv [OF assms(1), of k v] assms(3) by auto
next
  case (TweenComplete k)
  then show ?thesis using tweenComplete_inv [OF assms(1), of k] assms(3) by auto
next
  case WindowError
  then show ?thesis using assms(3) by auto
qed

lemma run_frame:
  "inv s \<Longrightarrow> 3 \<le> loadedCount s \<Longrightarrow> \<exists>s'. run evs s = Some s' \<and> inv s' \<and> frame s s'"
proof (induction evs arbitrary: s)
  case Nil
  then show ?case by simp
next
  case (Cons e es)
  obtain s1 where s1: "step e s = Some s1" "inv s1" using step_inv [OF Cons.prems(1)] by blast
  have f1: "frame s s1" using step_frame [OF Cons.prems s1(1)] .
  then have "3 \<le> loadedCount s1" using Cons.prems(2) by (simp add: frame_def)
  then obtain s' where s': "run es s1 = Some s'" "inv s'" "frame s1 s'"
    using Cons.IH [OF s1(2)] by blast
  then show ?case using s1 frame_trans [OF f1 s'(3)] by simp
qed

subsection \<open>The count of instances, the console and the loader's slots along an execution\<close>

lemma createInstances_count:
  assumes "ts \<noteq> []" "\<forall>x\<in>set ts. x \<noteq> None"
  shows "\<exists>s'. createInstances i rest ts s = Inr s' \<and> length (objects s') = length (objects s) + length rest"
proof (induction rest arbitrary: i s)
  case Nil
  then show ?case by simp
next
  case (Cons c rest)
  have "i mod length ts < length ts" using assms(1) by simp
  then obtain t where t: "ts ! (i mod length ts) = Some t"
    using assms(2) by (metis nth_mem not_None_eq)
  let ?s1 = "placeModel i (i mod length ts) c t (length (nodes s)) (newGroup i c s)"
  obtain s' where s': "createInstances (Suc i) rest ts ?s1 = Inr s'"
    "length (objects s') = length (objects ?s1) + length rest"
    using Cons.IH [of "Suc i" ?s1] by blast
  have "createInstances i (c # rest) ts s = Inr s'" using s'(1) t assms(1) by simp
  then show ?case using s'(2) by (simp add: placeModel_fields)
qed

lemma createCarousel_count:
  assumes "ts \<noteq> []" "\<forall>x\<in>set ts. x \<noteq> None"
  shows "\<exists>s'. createCarousel ts s = Inr s' \<and> length (objects s') = length MODEL_POSITIONS"
  using createInstances_count [OF assms, of 0 MODEL_POSITIONS "s\<lparr>console := console s @ [LogCreating], objects := []\<rparr>"]
  by (simp add: createCarousel_def)

lemma console_animate: "console (animate ray s) = console s @ [LogFPS]"
  by (cases "intersectObjects (nodes s) (objects s) False ray"; cases "hoveredObject s")
     (simp_all add: animate_def Let_def set_scale_fields)

lemma console_tweenUpdate: "console (tweenUpdate k v s) = console s"
  by (simp add: tweenUpdate_def set_scale_fields)

lemma console_tweenComplete: "console (tweenComplete k s) = console s"
  by (simp add: tweenComplete_def Let_def set_scale_fields split: jnum.splits)

lemma console_mouseout: "console (onMouseOut l s) = console s"
  using mouseout_cases [of l s] by (auto simp: gsap_to_fields)

lemma console_blur: "console (onBlur s) = console s"
  using blur_cases [of s] by (auto simp: gsap_to_fields)

lemma step_errors:
  assumes "inv s" "step e s = Some s'"
  shows "errors_of (console s') = errors_of (console s) @ (if e = WindowError then [ErrThree] else [])"
proof (cases e)
  case (LoadOk i t)
  then show ?thesis using assms onLoad_inv [OF assms(1), of i t] by (auto split: if_splits)
next
  case (LoadFail i)
  then show ?thesis using assms by (auto split: if_splits)
next
  case (MouseMove ray)
  then show ?thesis using hover_inv [OF assms(1), of ray] assms(2) by auto
next
  case (Click t b ray)
  then show ?thesis using assms(2) by (auto simp: wc_more_fields mc_more_fields)
next
  case (TimerFire t)
  then show ?thesis using assms(2) by (auto simp: timer_more_fields)
next
  case (MouseOut l)
  then show ?thesis using assms(2) by (auto simp: console_mouseout)
next
  case Blur
  then show ?thesis using assms(2) by (auto simp: console_blur)
next
  case (Frame ray)
  then show ?thesis using assms(2) by (auto simp: console_animate errors_of_def)
next
  case (TweenUpdate k v)
  then show ?thesis using assms(2) by (auto simp: console_tweenUpdate)
next
  case (TweenComplete k)
  then show ?thesis using assms(2) by (auto simp: console_tweenComplete)
next
  case WindowError
  then show ?thesis using assms(2) by (auto simp: errors_of_def)
qed

lemma step_models:
  assumes "inv s" "step e s = Some s'" "\<forall>t. e \<noteq> LoadOk i t"
  shows "slot_empty (models s') i = slot_empty (models s) i"
proof (cases e)
  case (LoadOk j t)
  then have ji: "j \<noteq> i" using assms(3) by auto
  show ?thesis
  proof (cases "j < 3 \<and> loadPending s ! j")
    case True
    then have "models s' = js_set (models s) j t"
      using LoadOk assms(2) onLoad_inv [OF assms(1), of j t] by auto
    then show ?thesis using ji by (simp add: slot_empty_js_set)
  next
    case False
    then show ?thesis using LoadOk assms(2) by auto
  qed
next
  case (LoadFail j)
  then show ?thesis using assms(2) by (auto split: if_splits)
next
  case (MouseMove ray)
  then show ?thesis using hover_inv [OF assms(1), of ray] assms(2) by (auto simp: frame_def)
next
  case (Click t b ray)
  then show ?thesis using assms(2) by (auto simp: wc_more_fields mc_more_fields)
next
  case (TimerFire t)
  then show ?thesis using assms(2) by (auto simp: timer_more_fields)
next
  case (MouseOut l)
  then show ?thesis using mouseout_inv [OF assms(1), of l] assms(2) by (auto simp: frame_def)
next
  case Blur
  then show ?thesis using blur_inv [OF assms(1)] assms(2) by (auto simp: frame_def)
next
  case (Frame ray)
  then show ?thesis using animate_inv [OF assms(1), of ray] assms(2) by (auto simp: frame_def)
next
  case (TweenUpdate k v)
  then show ?thesis using tweenUpdate_inv [OF assms(1), of k v] assms(2) by (auto simp: frame_def)
next
  case (TweenComplete k)
  then show ?thesis using tweenComplete_inv [OF assms(1), of k] assms(2) by (auto simp: frame_def)
next
  case WindowError
  then show ?thesis using assms(2) by auto
qed

lemma run_without_load:
  assumes "\<forall>t. LoadOk i t \<notin> set evs"
  shows "inv s \<Longrightarrow> slot_empty (models s) i \<Longrightarrow>
    \<exists>s'. run evs s = Some s' \<and> inv s' \<and> slot_empty (models s') i \<and>
         errors_of (console s') =
           errors_of (console s) @ map (\<lambda>_. ErrThree) (filter (\<lambda>e. e = WindowError) evs)"
  using assms
proof (induction evs arbitrary: s)
  case Nil
  then show ?case by simp
next
  case (Cons e es)
  obtain s1 where s1: "step e s = Some s1" "inv s1" using step_inv [OF Cons.prems(1)] by blast
  have ne: "\<forall>t. e \<noteq> LoadOk i t" using Cons.prems(3) by auto
  have se: "slot_empty (models s1) i"
    using step_models [OF Cons.prems(1) s1(1) ne] Cons.prems(2) by simp
  have er: "errors_of (console s1) = errors_of (console s) @ (if e = WindowError then [ErrThree] else [])"
    using step_errors [OF Cons.prems(1) s1(1)] .
  have "\<forall>t. LoadOk i t \<notin> set es" using Cons.prems(3) by auto
  then obtain s' where s': "run es s1 = Some s'" "inv s'" "slot_empty (models s') i"
    "errors_of (console s') = errors_of (console s1) @ map (\<lambda>_. ErrThree) (filter (\<lambda>e. e = WindowError) es)"
    using Cons.IH [OF s1(2) se] by blast
  show ?case using s1(1) s' er by simp
qed

lemma creating_of_empty: "creating_of ls = [] \<Longrightarrow> LogCreating \<notin> set ls"
  by (auto simp: creating_of_def filter_empty_conv)

lemma inv_slot_empty_pre:
  assumes "inv s" "slot_empty (models s) i" "i < 3"
  shows "loadedCount s < 3 \<and> objects s = [] \<and> LogCreating \<notin> set (console s)"
proof -
  have so: "slots_ok s" using assms(1) by (simp add: inv_def)
  then have l3: "length (models s) \<le> 3" by (simp add: slots_ok_def)
  have "count_some (models s) < 3" using slot_empty_not_full [OF assms(2,3) l3] .
  then have lt: "loadedCount s < 3" using so by (simp add: slots_ok_def)
  then show ?thesis using inv_pre_fields [OF assms(1) lt] creating_of_empty by simp
qed

subsection \<open>Instances in a built state\<close>

lemma quad_nth:
  assumes "k < 3"
  shows "concat (map quad MODEL_POSITIONS) ! (4 * k + 2) = config_position (MODEL_POSITIONS ! k)"
    "concat (map quad MODEL_POSITIONS) ! (4 * k + 3) = config_rotation (MODEL_POSITIONS ! k)"
proof -
  have "k = 0 \<or> k = 1 \<or> k = 2" using assms by auto
  then show "concat (map quad MODEL_POSITIONS) ! (4 * k + 2) = config_position (MODEL_POSITIONS ! k)"
    by (auto simp: MODEL_POSITIONS_def quad_def)
  have "k = 0 \<or> k = 1 \<or> k = 2" using assms by auto
  then show "concat (map quad MODEL_POSITIONS) ! (4 * k + 3) = config_rotation (MODEL_POSITIONS ! k)"
    by (auto simp: MODEL_POSITIONS_def quad_def)
qed

lemma built_instance:
  assumes "built s" "k < 3"
  shows "objects s ! k < length (nodes s)" "inst_ok (nodes s ! (objects s ! k)) k"
    "objects s ! k \<in> set (objects s)"
  using assms by (simp_all add: built_def loop_inv_def scene_ok_def)

lemma built_member:
  assumes "built s" "g \<in> set (objects s)"
  shows "\<exists>k<3. g = objects s ! k \<and> g < length (nodes s) \<and> inst_ok (nodes s ! g) k"
proof -
  have l: "length (objects s) = 3" using assms(1) by (simp add: built_def loop_inv_def)
  show ?thesis using scene_ok_member [OF built_scene [OF assms(1)] assms(2)] l by auto
qed

lemma rehover_tweens:
  "currentHoveredModel s = None \<Longrightarrow> tweens (rehover m s) =
     tweens s @ [\<lparr>tw_target = m, tw_x = hoverScale (ud_originalScale (nodes s ! m)),
                   tw_y = hoverScale (ud_originalScale (nodes s ! m)),
                   tw_z = hoverScale (ud_originalScale (nodes s ! m)),
                   tw_duration = 3/10, tw_ease = Some ''power2.out'', tw_onComplete = False\<rparr>]"
  "currentHoveredModel s = Some p \<Longrightarrow> tweens (rehover m s) =
     tweens s @ [\<lparr>tw_target = p, tw_x = num_or_undefined (ud_originalScale (nodes s ! p)),
                   tw_y = num_or_undefined (ud_originalScale (nodes s ! p)),
                   tw_z = num_or_undefined (ud_originalScale (nodes s ! p)),
                   tw_duration = 3/10, tw_ease = Some ''power2.out'', tw_onComplete = False\<rparr>,
                 \<lparr>tw_target = m, tw_x = hoverScale (ud_originalScale (nodes s ! m)),
                   tw_y = hoverScale (ud_originalScale (nodes s ! m)),
                   tw_z = hoverScale (ud_originalScale (nodes s ! m)),
                   tw_duration = 3/10, tw_ease = Some ''power2.out'', tw_onComplete = False\<rparr>]"
  by (simp_all add: rehover_def gsap_to_fields resetHovered_fields)

lemma reachable_inv: "run evs init = Some s \<Longrightarrow> inv s"
  using run_inv [OF inv_init, of evs] by auto

lemma inv_tagged_built:
  assumes "inv s" "m < length (nodes s)" "ud_originalPosition (nodes s ! m) \<noteq> None"
  shows "built s \<and> m \<in> set (objects s)"
proof (cases "loadedCount s < 3")
  case True
  have "nodes s = nodes init" using inv_pre_fields [OF assms(1) True] by simp
  then have "ud_originalPosition (nodes s ! m) = None"
    using assms(2) by (auto simp: init_def new_object_def nth_Cons' split: if_splits)
  then show ?thesis using assms(3) by simp
next
  case False
  then have b: "built s" using assms(1) by (simp add: inv_def)
  then show ?thesis using scene_ok_tagged [OF built_scene [OF b] assms(2,3)] by simp
qed

lemma findModel_tagged:
  "findModel h hits = Some (Some m) \<Longrightarrow> \<forall>x\<in>set hits. x < length h \<Longrightarrow> parents_ok h \<Longrightarrow>
     m < length h \<and> ud_originalPosition (h ! m) \<noteq> None"
  using findModel_total [of h hits] by auto

lemma run_state_after: "run evs init = Some (state_after evs)"
  using run_inv [OF inv_init, of evs] by (auto simp: state_after_def)


lemma inst_ok_unique: "inst_ok n k \<Longrightarrow> inst_ok n k' \<Longrightarrow> k = k'"
  by (simp add: inst_ok_def Let_def)

lemma inv_current_built:
  assumes "inv s" "currentHoveredModel s = Some g"
  shows "built s \<and> g \<in> set (objects s) \<and> 3 \<le> loadedCount s"
proof (cases "loadedCount s < 3")
  case True
  then show ?thesis using inv_pre_fields(1) [OF assms(1)] assms(2) by simp
next
  case False
  then show ?thesis using assms inv_hover_refs [OF assms(1)] by (simp add: inv_def)
qed

subsection \<open>The state of the click dispatcher\<close>

lemma click_state_animate:
  "clickCount (animate ray s) = clickCount s" "clickTimer (animate ray s) = clickTimer s"
  by (cases "intersectObjects (nodes s) (objects s) False ray"; cases "hoveredObject s";
      simp add: animate_def Let_def set_scale_fields)+

lemma click_state_tweenUpdate:
  "clickCount (tweenUpdate k v s) = clickCount s" "clickTimer (tweenUpdate k v s) = clickTimer s"
  by (simp_all add: tweenUpdate_def set_scale_fields)

lemma click_state_tweenComplete:
  "clickCount (tweenComplete k s) = clickCount s" "clickTimer (tweenComplete k s) = clickTimer s"
  by (simp_all add: tweenComplete_def Let_def set_scale_fields split: jnum.splits)

lemma click_state_mouseout:
  "clickCount (onMouseOut l s) = clickCount s" "clickTimer (onMouseOut l s) = clickTimer s"
  using mouseout_cases [of l s] by (auto simp: gsap_to_fields)

lemma click_state_blur:
  "clickCount (onBlur s) = clickCount s" "clickTimer (onBlur s) = clickTimer s"
  using blur_cases [of s] by (auto simp: gsap_to_fields)

lemma step_click_state:
  assumes "inv s" "step e s = Some s'" "clickTimer s = Some due" "quiet due e"
  shows "clickCount s' = clickCount s \<and> clickTimer s' = clickTimer s"
proof (cases e)
  case (LoadOk i t)
  then show ?thesis using assms(2) onLoad_inv [OF assms(1), of i t] by (auto split: if_splits)
next
  case (LoadFail i)
  then show ?thesis using assms(2) by (auto split: if_splits)
next
  case (MouseMove ray)
  then show ?thesis using hover_inv [OF assms(1), of ray] assms(2) by auto
next
  case (Click t b ray)
  then show ?thesis using assms(4) by (simp add: quiet_def)
next
  case (TimerFire t)
  then show ?thesis using assms(2,3,4) by (auto simp: quiet_def onClickTimer_def)
next
  case (MouseOut l)
  then show ?thesis using assms(2) by (auto simp: click_state_mouseout)
next
  case Blur
  then show ?thesis using assms(2) by (auto simp: click_state_blur)
next
  case (Frame ray)
  then show ?thesis using assms(2) by (auto simp: click_state_animate)
next
  case (TweenUpdate k v)
  then show ?thesis using assms(2) by (auto simp: click_state_tweenUpdate)
next
  case (TweenComplete k)
  then show ?thesis using assms(2) by (auto simp: click_state_tweenComplete)
next
  case WindowError
  then show ?thesis using assms(2) by auto
qed

lemma run_click_state:
  "inv s \<Longrightarrow> clickTimer s = Some due \<Longrightarrow> \<forall>e\<in>set evs. quiet due e \<Longrightarrow> run evs s = Some s' \<Longrightarrow>
     inv s' \<and> clickCount s' = clickCount s \<and> clickTimer s' = clickTimer s"
proof (induction evs arbitrary: s)
  case Nil
  then show ?case by simp
next
  case (Cons e es)
  obtain s1 where s1: "step e s = Some s1" "inv s1" using step_inv [OF Cons.prems(1)] by blast
  have q: "quiet due e" using Cons.prems(3) by simp
  have c1: "clickCount s1 = clickCount s \<and> clickTimer s1 = clickTimer s"
    using step_click_state [OF Cons.prems(1) s1(1) Cons.prems(2) q] .
  have "run es s1 = Some s'" using Cons.prems(4) s1(1) by simp
  then show ?case using Cons.IH [of s1] s1(2) c1 Cons.prems(2,3) by simp
qed

lemma pageName_table:
  "pageName ''rockbody'' = Page ''LI1-new''" "pageName ''shin'' = Page ''Shinkansen-new''"
  "pageName ''kidsynth'' = Page ''Kid-Synth-new''"
  by (simp_all add: pageName_def modelPages_def)

lemma pageName_default:
  "nm \<noteq> ''rockbody'' \<Longrightarrow> nm \<noteq> ''shin'' \<Longrightarrow> nm \<noteq> ''kidsynth'' \<Longrightarrow>
   pageName nm = (if nm \<in> set Object_prototype then Inherited nm else Page ''index'')"
  by (simp add: pageName_def modelPages_def)

lemma pageName_configured:
  assumes "k < 3"
  shows "\<exists>p. map_of modelPages (mp_name (MODEL_POSITIONS ! k)) = Some p \<and>
             html (pageName (mp_name (MODEL_POSITIONS ! k))) = Href (p @ ''.html'')"
proof -
  have "k = 0 \<or> k = 1 \<or> k = 2" using assms by arith
  then show ?thesis
    by (auto simp: MODEL_POSITIONS_def pageName_def modelPages_def)
qed

lemma second_click:
  assumes "clickCount s = 1" "currentHoveredModel s = Some g"
  shows "onMouseClick t False s =
           s\<lparr>clickCount := 0, clickTimer := None,
             location := Some (html (pageName (modelNameOf (nodes s) g)))\<rparr>"
  using assms by (simp add: onMouseClick_def onModelClick_def Let_def)

lemma first_click:
  assumes "clickCount s = 0"
  shows "onMouseClick t False s = s\<lparr>clickCount := 1, clickTimer := Some (t + 300)\<rparr>"
  using assms by (simp add: onMouseClick_def Let_def)

lemma state_after_run: "run evs' (state_after evs) = Some (state_after (evs @ evs'))"
  using run_state_after [of evs] run_state_after [of "evs @ evs'"] by (simp add: run_append)

lemma state_after_step: "step e (state_after evs) = Some (state_after (evs @ [e]))"
  using state_after_run [of "[e]" evs] by (simp split: option.splits)

subsection \<open>Scales after the carousel is built\<close>







subsection \<open>The pick of the render loop\<close>








subsection \<open>The state right after the third load\<close>



section \<open>Clicks without a hover target\<close>

text \<open>
  C6. A click while no model is the current hover target leaves the browser location as
  it was: neither \<^verbatim>\<open>onMouseClick\<close> alone nor the whole click event (both listeners)
  assigns it.
\<close>

theorem click_without_hover_keeps_location:
  assumes "currentHoveredModel s = None"
  shows "location (onMouseClick now onContactButton s) = location s \<and>
         (\<exists>s'. step (Click now onContactButton ray) s = Some s' \<and> location s' = location s)"
  using assms by (simp add: onMouseClick_def onWindowClick_def Let_def)

theorem click_without_hover_keeps_location_witness:
  "currentHoveredModel (onMouseClick 0 False (state_after demo_loaded)) = None \<and>
   location (onMouseClick 100 False (onMouseClick 0 False (state_after demo_loaded))) =
     location (onMouseClick 0 False (state_after demo_loaded)) \<and>
   (\<exists>s'. step (Click 100 False [4]) (onMouseClick 0 False (state_after demo_loaded)) = Some s' \<and>
         location s' = location (onMouseClick 0 False (state_after demo_loaded)))"
proof -
  have h: "currentHoveredModel (onMouseClick 0 False (state_after demo_loaded)) = None"
    by code_simp
  show ?thesis
    using h click_without_hover_keeps_location [OF h, of 100 False "[4]"] by blast
qed

section \<open>The second hover mechanism of the render loop\<close>




section \<open>The second click listener\<close>

text \<open>
  C9. Two clicks whose time stamps differ by less than 300 ms, each with the cursor ray
  on an object of the carousel: at the second one the time-stamp listener opens a new
  window. The listener leaves the state of the timer-based dispatcher (click count,
  timer, hover target, location) alone, the dispatcher leaves the listener's state alone,
  and the two commute.
\<close>

theorem window_click_opens_window:
  assumes "intersectObjects (nodes s) (objects s) True ray1 \<noteq> []"
    and "intersectObjects (nodes s) (objects s) True ray2 \<noteq> []"
    and "t2 - t1 < 300"
  shows "\<exists>s1 s2. step (Click t1 b1 ray1) s = Some s1 \<and> step (Click t2 b2 ray2) s1 = Some s2 \<and>
           windowsOpened s2 = Suc (windowsOpened s1) \<and>
           clickCount s2 = clickCount (onMouseClick t2 b2 (onMouseClick t1 b1 s)) \<and>
           clickTimer s2 = clickTimer (onMouseClick t2 b2 (onMouseClick t1 b1 s)) \<and>
           location s2 = location (onMouseClick t2 b2 (onMouseClick t1 b1 s)) \<and>
           currentHoveredModel s2 = currentHoveredModel s \<and>
           onWindowClick t ray (onMouseClick t' b s') = onMouseClick t' b (onWindowClick t ray s') \<and>
           onWindowClick t ray (onClickTimer t' s') = onClickTimer t' (onWindowClick t ray s') \<and>
           lastClickTime (onMouseClick t' b s') = lastClickTime s' \<and>
           windowsOpened (onMouseClick t' b s') = windowsOpened s'"
proof -
  let ?s1 = "onWindowClick t1 ray1 (onMouseClick t1 b1 s)"
  let ?m2 = "onMouseClick t2 b2 ?s1"
  let ?s2 = "onWindowClick t2 ray2 ?m2"
  have l1: "lastClickTime ?s1 = t1"
    using assms(1) by (simp add: wc_last mc_fields)
  have hit2: "intersectObjects (nodes ?m2) (objects ?m2) True ray2 \<noteq> []"
    using assms(2) by (simp add: mc_fields wc_fields)
  have "lastClickTime ?m2 = t1" using l1 by (simp add: mc_fields)
  then have w: "windowsOpened ?s2 = Suc (windowsOpened ?m2)"
    using wc_opens [OF hit2, of t2] assms(3) by simp
  have w2: "windowsOpened ?s2 = Suc (windowsOpened ?s1)"
    using w by (simp add: mc_fields)
  have c: "?s2 = onWindowClick t2 ray2 (onWindowClick t1 ray1 (onMouseClick t2 b2 (onMouseClick t1 b1 s)))"
    by (simp add: wc_commute_mc)
  have f: "clickCount ?s2 = clickCount (onMouseClick t2 b2 (onMouseClick t1 b1 s))"
    "clickTimer ?s2 = clickTimer (onMouseClick t2 b2 (onMouseClick t1 b1 s))"
    "location ?s2 = location (onMouseClick t2 b2 (onMouseClick t1 b1 s))"
    by (simp_all only: c wc_fields)
  have g: "currentHoveredModel ?s2 = currentHoveredModel s"
    by (simp add: wc_fields mc_hover)
  show ?thesis
    using w2 f g wc_commute_mc wc_commute_timer mc_fields(1,2) by simp
qed

theorem window_click_opens_window_witness:
  "intersectObjects (nodes (state_after demo_loaded)) (objects (state_after demo_loaded)) True [4] \<noteq> [] \<and>
   (1100::int) - 1000 < 300 \<and>
   (\<exists>s1 s2. step (Click 1000 False [4]) (state_after demo_loaded) = Some s1 \<and>
      step (Click 1100 False [4]) s1 = Some s2 \<and>
      windowsOpened s2 = Suc (windowsOpened s1))"
proof -
  have h: "intersectObjects (nodes (state_after demo_loaded)) (objects (state_after demo_loaded)) True [4] \<noteq> []"
    by code_simp
  have t: "(1100::int) - 1000 < 300" by simp
  show ?thesis
    using h t window_click_opens_window [OF h h t, of False False] by blast
qed

section \<open>The timer-based double click\<close>

text \<open>
  C1 (as amended). Let the dispatcher be idle (no timer pending) in a reachable state. A
  first click that is not on the contact button starts the 300 ms timer. If only events
  other than clicks follow, the timer does not expire before \<open>t1 + 300\<close>, and a
  second click that is not on the contact button arrives before that time while an
  instance \<open>g\<close> is the hover target, then the second click clears the timer, resets
  the click count and sets the location to \<open>p\<close> followed by \<^verbatim>\<open>.html\<close>, where
  \<open>p\<close> is the entry of the fixed table for the name of \<open>g\<close>, which is one of its
  three keys. The lookup gives \<^verbatim>\<open>index\<close> for a name that is neither a key of the
  table nor the name of a member inherited from \<^verbatim>\<open>Object.prototype\<close>; for the name of
  such a member it gives that member.
\<close>

theorem double_click_navigates:
  assumes "run evs init = Some s" and "clickTimer s = None"
    and "t2 < t1 + 300"
    and "step (Click t1 False ray1) s = Some s1"
    and "\<forall>e\<in>set between. quiet (t1 + 300) e"
    and "run between s1 = Some s2"
    and "currentHoveredModel s2 = Some g"
  shows "\<exists>s3 k p. step (Click t2 False ray2) s2 = Some s3 \<and>
           clickTimer s1 = Some (t1 + 300) \<and> clickTimer s2 = Some (t1 + 300) \<and>
           clickTimer s3 = None \<and> clickCount s3 = 0 \<and>
           k < length MODEL_POSITIONS \<and> g = objects s2 ! k \<and>
           ud_name (nodes s2 ! g) = Some (mp_name (MODEL_POSITIONS ! k)) \<and>
           map_of modelPages (mp_name (MODEL_POSITIONS ! k)) = Some p \<and>
           location s3 = Some (Href (p @ ''.html'')) \<and>
           pageName ''rockbody'' = Page ''LI1-new'' \<and>
           pageName ''shin'' = Page ''Shinkansen-new'' \<and>
           pageName ''kidsynth'' = Page ''Kid-Synth-new'' \<and>
           (nm \<noteq> ''rockbody'' \<and> nm \<noteq> ''shin'' \<and> nm \<noteq> ''kidsynth'' \<longrightarrow>
              pageName nm = (if nm \<in> set Object_prototype then Inherited nm else Page ''index''))"
proof -
  have i: "inv s" using reachable_inv [OF assms(1)] .
  have c0: "clickCount s = 0" using inv_timer [OF i] assms(2) by (simp add: timer_ok_def)
  have s1: "s1 = onWindowClick t1 ray1 (s\<lparr>clickCount := 1, clickTimer := Some (t1 + 300)\<rparr>)"
    using assms(4) first_click [OF c0, of t1] by simp
  have t1: "clickTimer s1 = Some (t1 + 300)" and n1: "clickCount s1 = 1"
    unfolding s1 by (simp_all add: wc_fields)
  have i1: "inv s1" using step_inv [OF i, of "Click t1 False ray1"] assms(4) by auto
  have r: "inv s2 \<and> clickCount s2 = clickCount s1 \<and> clickTimer s2 = clickTimer s1"
    using run_click_state [OF i1 t1 assms(5,6)] .
  then have i2: "inv s2" and n2: "clickCount s2 = 1" and t2: "clickTimer s2 = Some (t1 + 300)"
    using n1 t1 by simp_all
  have b2: "built s2" and g2: "g \<in> set (objects s2)"
    using inv_current_built [OF i2 assms(7)] by simp_all
  obtain k where k: "k < 3" "g = objects s2 ! k" "inst_ok (nodes s2 ! g) k"
    using built_member [OF b2 g2] by blast
  have nm: "ud_name (nodes s2 ! g) = Some (mp_name (MODEL_POSITIONS ! k))"
    using k(3) by (simp add: inst_ok_def Let_def)
  have mn: "modelNameOf (nodes s2) g = mp_name (MODEL_POSITIONS ! k)"
    using nm names_nonempty [OF k(1)] by (simp add: modelNameOf_def Let_def)
  obtain p where p: "map_of modelPages (mp_name (MODEL_POSITIONS ! k)) = Some p"
    "html (pageName (mp_name (MODEL_POSITIONS ! k))) = Href (p @ ''.html'')"
    using pageName_configured [OF k(1)] by blast
  let ?s3 = "onWindowClick t2 ray2 (onMouseClick t2 False s2)"
  have f: "clickTimer ?s3 = None" "clickCount ?s3 = 0"
    "location ?s3 = Some (Href (p @ ''.html''))"
    unfolding second_click [OF n2 assms(7)] by (simp_all add: wc_fields mn p(2))
  have l: "k < length MODEL_POSITIONS" using k(1) by (simp add: MODEL_POSITIONS_def)
  show ?thesis
    apply (rule exI [of _ ?s3], rule exI [of _ k], rule exI [of _ p])
    using f t1 t2 l k(2) nm p(1) pageName_table pageName_default [of nm] by simp
qed

theorem double_click_navigates_witness:
  "clickTimer (state_after demo_hovered) = None \<and> (1100::int) < 1000 + 300 \<and>
   quiet (1000 + 300) (Frame [4]) \<and> quiet (1000 + 300) (TimerFire 1200) \<and>
   currentHoveredModel (state_after (demo_hovered @ [Click 1000 False [4]] @ [Frame [4], TimerFire 1200])) = Some 2 \<and>
   (\<exists>s3. step (Click 1100 False [4])
            (state_after (demo_hovered @ [Click 1000 False [4]] @ [Frame [4], TimerFire 1200])) = Some s3 \<and>
         clickTimer s3 = None \<and> clickCount s3 = 0 \<and> location s3 = Some (Href ''LI1-new.html''))"
proof -
  let ?s = "state_after demo_hovered"
  let ?s1 = "state_after (demo_hovered @ [Click 1000 False [4]])"
  let ?s2 = "state_after (demo_hovered @ [Click 1000 False [4]] @ [Frame [4], TimerFire 1200])"
  have h1: "run demo_hovered init = Some ?s" by (rule run_state_after)
  have h2: "clickTimer ?s = None" by code_simp
  have h3: "(1100::int) < 1000 + 300" by simp
  have h4: "step (Click 1000 False [4]) ?s = Some ?s1" by (rule state_after_step)
  have q: "quiet (1000 + 300) (Frame [4]) \<and> quiet (1000 + 300) (TimerFire 1200)"
    by (simp add: quiet_def)
  then have h5: "\<forall>e\<in>set [Frame [4], TimerFire 1200]. quiet (1000 + 300) e" by simp
  have h6: "run [Frame [4], TimerFire 1200] ?s1 = Some ?s2"
    using state_after_run [of "[Frame [4], TimerFire 1200]" "demo_hovered @ [Click 1000 False [4]]"] by simp
  have h7: "currentHoveredModel ?s2 = Some 2" by code_simp
  have o: "objects ?s2 = [2, 5, 8]" by code_simp
  from double_click_navigates [OF h1 h2 h3 h4 h5 h6 h7, of "[4]" "[]"]
  obtain s3 k p where r: "step (Click 1100 False [4]) ?s2 = Some s3" "clickTimer s3 = None"
    "clickCount s3 = 0" "k < length MODEL_POSITIONS" "2 = objects ?s2 ! k"
    "map_of modelPages (mp_name (MODEL_POSITIONS ! k)) = Some p"
    "location s3 = Some (Href (p @ ''.html''))"
    by (elim exE conjE) (rule that; assumption)
  have "k = 0" using r(4,5) o by (auto simp: nth_Cons' split: if_splits)
  then have "location s3 = Some (Href ''LI1-new.html'')"
    using r(6,7) by (simp add: MODEL_POSITIONS_def modelPages_def)
  then show ?thesis using h2 h3 q h7 r(1,2,3) by blast
qed

text \<open>
  C1 as it was stated fails in three ways. With instance 0 hovered, two clicks 100 ms
  apart that land on the contact button are ignored by the dispatcher, which neither
  starts a timer nor sets the location. With instance 0 hovered throughout, of three
  clicks 100 ms apart the second and the third are within 300 ms of each other, but the
  second has already closed the double click begun by the first, so the third is a
  first click: it starts a timer and cancels none. The same happens when nothing is
  hovered at the first two clicks and instance 0 is hovered at the third: the location
  is not set. And the lookup of the table at \<^verbatim>\<open>constructor\<close>, which is no key of the
  table, finds the inherited member and not \<^verbatim>\<open>index\<close>.
\<close>

theorem double_click_counterexample:
  "run (demo_hovered @ [Click 1000 True [4], Click 1100 True [4]]) init \<noteq> None \<and>
   currentHoveredModel (state_after (demo_hovered @ [Click 1000 True [4]])) = Some 2 \<and>
   currentHoveredModel (state_after (demo_hovered @ [Click 1000 True [4], Click 1100 True [4]])) = Some 2 \<and>
   (1100::int) - 1000 < 300 \<and>
   clickTimer (state_after (demo_hovered @ [Click 1000 True [4]])) = None \<and>
   location (state_after (demo_hovered @ [Click 1000 True [4], Click 1100 True [4]])) = None \<and>
   run (demo_hovered @ [Click 1000 False [4], Click 1100 False [4], Click 1200 False [4]]) init \<noteq> None \<and>
   currentHoveredModel (state_after (demo_hovered @ [Click 1000 False [4]])) = Some 2 \<and>
   currentHoveredModel (state_after (demo_hovered @ [Click 1000 False [4], Click 1100 False [4]])) = Some 2 \<and>
   clickTimer (state_after (demo_hovered @ [Click 1000 False [4], Click 1100 False [4]])) = None \<and>
   (1200::int) - 1100 < 300 \<and>
   currentHoveredModel
     (state_after (demo_hovered @ [Click 1000 False [4], Click 1100 False [4], Click 1200 False [4]])) = Some 2 \<and>
   clickTimer
     (state_after (demo_hovered @ [Click 1000 False [4], Click 1100 False [4], Click 1200 False [4]])) = Some 1500 \<and>
   clickCount
     (state_after (demo_hovered @ [Click 1000 False [4], Click 1100 False [4], Click 1200 False [4]])) = 1 \<and>
   run (demo_loaded @ [Click 1000 False [], Click 1100 False [], MouseMove [4], Click 1200 False [4]]) init \<noteq> None \<and>
   currentHoveredModel
     (state_after (demo_loaded @ [Click 1000 False [], Click 1100 False [], MouseMove [4], Click 1200 False [4]])) = Some 2 \<and>
   clickTimer
     (state_after (demo_loaded @ [Click 1000 False [], Click 1100 False [], MouseMove [4], Click 1200 False [4]])) = Some 1500 \<and>
   location
     (state_after (demo_loaded @ [Click 1000 False [], Click 1100 False [], MouseMove [4], Click 1200 False [4]])) = None \<and>
   map_of modelPages ''constructor'' = None \<and>
   pageName ''constructor'' = Inherited ''constructor'' \<and>
   html (pageName ''constructor'') \<noteq> Href ''index.html''"
  by code_simp

section \<open>The number of instances\<close>

text \<open>
  C2. \<^verbatim>\<open>createCarousel\<close> makes one instance per configuration entry, three, for
  every non-empty list of templates, the template being chosen by the index modulo the
  number of templates. In every reachable state the carousel is built exactly when the
  load counter equals the number of asset paths: then there are three instances, and
  every later state has the same three; before that there is none and
  \<^verbatim>\<open>createCarousel\<close> has not run.
\<close>

theorem carousel_has_three_instances:
  "(ts \<noteq> [] \<and> (\<forall>x\<in>set ts. x \<noteq> None) \<longrightarrow>
      (\<exists>s'. createCarousel ts s = Inr s' \<and> length (objects s') = length MODEL_POSITIONS)) \<and>
   length MODEL_POSITIONS = 3 \<and>
   (\<exists>s1. run evs init = Some s1 \<and>
      (if loadedCount s1 = length MODEL_PATHS
       then length (objects s1) = length MODEL_POSITIONS \<and>
            (\<exists>s2. run later s1 = Some s2 \<and> loadedCount s2 = length MODEL_PATHS \<and>
                  objects s2 = objects s1)
       else objects s1 = [] \<and> LogCreating \<notin> set (console s1)))"
proof (intro conjI impI)
  assume "ts \<noteq> [] \<and> (\<forall>x\<in>set ts. x \<noteq> None)"
  then show "\<exists>s'. createCarousel ts s = Inr s' \<and> length (objects s') = length MODEL_POSITIONS"
    using createCarousel_count [of ts s] by blast
next
  show "length MODEL_POSITIONS = 3" by simp
next
  obtain s1 where s1: "run evs init = Some s1" "inv s1" using run_inv [OF inv_init] by blast
  show "\<exists>s1. run evs init = Some s1 \<and>
      (if loadedCount s1 = length MODEL_PATHS
       then length (objects s1) = length MODEL_POSITIONS \<and>
            (\<exists>s2. run later s1 = Some s2 \<and> loadedCount s2 = length MODEL_PATHS \<and>
                  objects s2 = objects s1)
       else objects s1 = [] \<and> LogCreating \<notin> set (console s1))"
  proof (cases "loadedCount s1 = 3")
    case True
    then have "built s1" using s1(2) by (simp add: inv_def)
    then have l: "length (objects s1) = 3" by (simp add: built_def loop_inv_def)
    obtain s2 where s2: "run later s1 = Some s2" "frame s1 s2"
      using run_frame [OF s1(2), of later] True by auto
    then show ?thesis using s1(1) True l by (auto simp: frame_def)
  next
    case False
    then have lt: "loadedCount s1 < 3" using inv_loaded_le [OF s1(2)] by simp
    show ?thesis
      using s1(1) False inv_pre_fields [OF s1(2) lt] creating_of_empty by auto
  qed
qed

theorem carousel_has_three_instances_witness:
  "[Some demo_asset] \<noteq> [] \<and>
   (\<exists>s'. createCarousel [Some demo_asset] init = Inr s' \<and> length (objects s') = 3) \<and>
   (\<exists>s1. run demo_loaded init = Some s1 \<and> loadedCount s1 = 3 \<and> length (objects s1) = 3 \<and>
      (\<exists>s2. run [MouseMove [4], Frame [2]] s1 = Some s2 \<and> objects s2 = objects s1))"
proof -
  have h1: "[Some demo_asset] \<noteq> [] \<and> (\<forall>x\<in>set [Some demo_asset]. x \<noteq> None)" by simp
  have h2: "map_option loadedCount (run demo_loaded init) = Some 3" by code_simp
  show ?thesis
    using carousel_has_three_instances [of "[Some demo_asset]" init demo_loaded "[MouseMove [4], Frame [2]]"] h1 h2
    by auto
qed

section \<open>The transform of an instance\<close>



section \<open>Hover and unhover\<close>



section \<open>Changing the hover target\<close>

text \<open>
  C5. In a reachable state, a mouse move whose hits resolve to a tagged root \<open>m\<close>
  other than the current hover target returns, makes \<open>m\<close> the hover target, and
  starts exactly these tweens: if there was a hover target \<open>p\<close>, a tween of \<open>p\<close>
  to its recorded original scale, and then a tween of \<open>m\<close> to 1.1 times its recorded
  original scale, each of 0.3 s with the easing \<^verbatim>\<open>power2.out\<close>.
\<close>

theorem hover_switch_tweens:
  assumes "run evs init = Some s"
    and "intersectObjects (nodes s) (objects s) True ray \<noteq> []"
    and "findModel (nodes s) (intersectObjects (nodes s) (objects s) True ray) = Some (Some m)"
    and "currentHoveredModel s \<noteq> Some m"
  shows "\<exists>s' c. handleHover ray s = Some s' \<and> currentHoveredModel s' = Some m \<and>
           ud_originalScale (nodes s ! m) = Some c \<and>
           (case currentHoveredModel s of
              None \<Rightarrow>
                tweens s' = tweens s @
                  [\<lparr>tw_target = m, tw_x = Num (c * (11/10)), tw_y = Num (c * (11/10)),
                    tw_z = Num (c * (11/10)), tw_duration = 3/10,
                    tw_ease = Some ''power2.out'', tw_onComplete = False\<rparr>]
            | Some p \<Rightarrow>
                (\<exists>cp. ud_originalScale (nodes s ! p) = Some cp \<and>
                   tweens s' = tweens s @
                     [\<lparr>tw_target = p, tw_x = Num cp, tw_y = Num cp, tw_z = Num cp,
                       tw_duration = 3/10, tw_ease = Some ''power2.out'', tw_onComplete = False\<rparr>,
                      \<lparr>tw_target = m, tw_x = Num (c * (11/10)), tw_y = Num (c * (11/10)),
                       tw_z = Num (c * (11/10)), tw_duration = 3/10,
                       tw_ease = Some ''power2.out'', tw_onComplete = False\<rparr>]))"
proof -
  have i: "inv s" using reachable_inv [OF assms(1)] .
  let ?I = "intersectObjects (nodes s) (objects s) True ray"
  have valid: "\<forall>x\<in>set ?I. x < length (nodes s)" using intersect_valid by blast
  have nb: "\<not> loadedCount s < 3"
  proof
    assume "loadedCount s < 3"
    then have "objects s = []" using inv_pre_fields [OF i] by simp
    then show False using assms(2) by simp
  qed
  then have b: "built s" using i by (simp add: inv_def)
  have po: "parents_ok (nodes s)" using built_scene [OF b] by (simp add: scene_ok_def)
  have tg: "m < length (nodes s) \<and> ud_originalPosition (nodes s ! m) \<noteq> None"
    using findModel_tagged [OF assms(3) valid po] .
  then have mo: "m \<in> set (objects s)" using scene_ok_tagged [OF built_scene [OF b]] by simp
  obtain k where k: "k < 3" "inst_ok (nodes s ! m) k" using built_member [OF b mo] by blast
  define c where "c = config_scale (MODEL_POSITIONS ! k)"
  have c: "ud_originalScale (nodes s ! m) = Some c" using k(2) by (simp add: inst_ok_def c_def Let_def)
  have hh: "handleHover ray s = Some (rehover m s)"
    using handleHover_found [OF assms(2,3,4) built_instance_name [OF b mo]] .
  show ?thesis
  proof (cases "currentHoveredModel s")
    case None
    then show ?thesis using hh c rehover_tweens(1) [OF None, of m]
      by (simp add: rehover_fields hoverScale_def)
  next
    case (Some p)
    then have "p \<in> set (objects s)" using inv_hover_refs [OF i] nb by simp
    then obtain kp where kp: "kp < 3" "inst_ok (nodes s ! p) kp" using built_member [OF b] by blast
    then have cp: "ud_originalScale (nodes s ! p) = Some (config_scale (MODEL_POSITIONS ! kp))"
      by (simp add: inst_ok_def Let_def)
    show ?thesis using hh c cp Some rehover_tweens(2) [OF Some, of m]
      by (simp add: rehover_fields hoverScale_def num_or_undefined_def)
  qed
qed

theorem hover_switch_tweens_witness:
  "intersectObjects (nodes (state_after demo_hovered)) (objects (state_after demo_hovered)) True [7] \<noteq> [] \<and>
   findModel (nodes (state_after demo_hovered))
     (intersectObjects (nodes (state_after demo_hovered)) (objects (state_after demo_hovered)) True [7]) =
     Some (Some 5) \<and>
   currentHoveredModel (state_after demo_hovered) = Some 2 \<and>
   (\<exists>s'. handleHover [7] (state_after demo_hovered) = Some s' \<and> currentHoveredModel s' = Some 5 \<and>
      tweens s' = tweens (state_after demo_hovered) @
        [\<lparr>tw_target = 2, tw_x = Num 3, tw_y = Num 3, tw_z = Num 3, tw_duration = 3/10,
          tw_ease = Some ''power2.out'', tw_onComplete = False\<rparr>,
         \<lparr>tw_target = 5, tw_x = Num (3 * (11/10)), tw_y = Num (3 * (11/10)), tw_z = Num (3 * (11/10)),
          tw_duration = 3/10, tw_ease = Some ''power2.out'', tw_onComplete = False\<rparr>])"
proof -
  let ?s = "state_after demo_hovered"
  have h1: "run demo_hovered init = Some ?s" by (rule run_state_after)
  have h2: "intersectObjects (nodes ?s) (objects ?s) True [7] \<noteq> []" by code_simp
  have h3: "findModel (nodes ?s) (intersectObjects (nodes ?s) (objects ?s) True [7]) = Some (Some 5)"
    by code_simp
  have c: "currentHoveredModel ?s = Some 2" by code_simp
  then have h4: "currentHoveredModel ?s \<noteq> Some 5" by simp
  have o5: "ud_originalScale (nodes ?s ! 5) = Some 3" by code_simp
  have o2: "ud_originalScale (nodes ?s ! 2) = Some 3" by code_simp
  show ?thesis
    using hover_switch_tweens [OF h1 h2 h3 h4] h2 h3 c o5 o2 by auto
qed

section \<open>A load that never succeeds\<close>

text \<open>
  C7. If one of the three loads never completes with an asset, then after every prefix of
  the execution the load counter is below the number of paths, there is no instance,
  \<^verbatim>\<open>createCarousel\<close> has not run, and the console holds exactly one error entry per
  window error event: a failed load adds none and changes nothing but its pending mark.
\<close>

theorem failed_load_never_builds:
  assumes "i < length MODEL_PATHS" and "\<forall>t. LoadOk i t \<notin> set evs"
  shows "\<exists>s. run (take n evs) init = Some s \<and>
           loadedCount s < length MODEL_PATHS \<and> objects s = [] \<and>
           LogCreating \<notin> set (console s) \<and>
           errors_of (console s) = map (\<lambda>_. ErrThree) (filter (\<lambda>e. e = WindowError) (take n evs)) \<and>
           step (LoadFail i) s = Some (s\<lparr>loadPending := (loadPending s)[i := False]\<rparr>)"
proof -
  have i3: "i < 3" using assms(1) by simp
  have no: "\<forall>t. LoadOk i t \<notin> set (take n evs)" using assms(2) by (meson in_set_takeD)
  have e0: "slot_empty (models init) i" by (simp add: slot_empty_def init_def)
  obtain s where s: "run (take n evs) init = Some s" "inv s" "slot_empty (models s) i"
    "errors_of (console s) =
       errors_of (console init) @ map (\<lambda>_. ErrThree) (filter (\<lambda>e. e = WindowError) (take n evs))"
    using run_without_load [OF no inv_init e0] by blast
  have p: "loadedCount s < 3 \<and> objects s = [] \<and> LogCreating \<notin> set (console s)"
    using inv_slot_empty_pre [OF s(2,3) i3] .
  have "\<not> loadPending s ! i \<Longrightarrow> (loadPending s)[i := False] = loadPending s"
    by (metis list_update_id)
  then have st: "step (LoadFail i) s = Some (s\<lparr>loadPending := (loadPending s)[i := False]\<rparr>)"
    using i3 by auto
  show ?thesis using s(1,4) p st by (simp add: errors_of_def init_def)
qed

theorem failed_load_never_builds_witness:
  "(1::nat) < length MODEL_PATHS \<and> (\<forall>t. LoadOk 1 t \<notin> set demo_failed) \<and>
   (\<exists>s. run (take 6 demo_failed) init = Some s \<and> loadedCount s < length MODEL_PATHS \<and>
      objects s = [] \<and> LogCreating \<notin> set (console s) \<and>
      errors_of (console s) = [ErrThree])"
proof -
  have h1: "(1::nat) < length MODEL_PATHS" by simp
  have h2: "\<forall>t. LoadOk 1 t \<notin> set demo_failed" by (simp add: demo_failed_def)
  have h3: "map (\<lambda>_. ErrThree) (filter (\<lambda>e. e = WindowError) (take 6 demo_failed)) = [ErrThree]"
    by (simp add: demo_failed_def)
  show ?thesis
    using h1 h2 failed_load_never_builds [OF h1 h2, of 6] unfolding h3 by blast
qed

section \<open>The recorded originals\<close>

text \<open>
  C10. In every reachable state in which the carousel is built, the recorded originals of
  instance \<open>k\<close> are the scale of its configuration entry and the two copies
  \<open>4k + 2\<close>, \<open>4k + 3\<close> made for it alone in the store of plain objects, which hold
  the configured position and rotation; the store is as it was built. Whatever events
  follow, the store, the instances and their recorded originals stay as they are.
\<close>

theorem originals_are_fixed:
  "\<exists>s. run evs init = Some s \<and>
     (loadedCount s = length MODEL_PATHS \<longrightarrow>
        plain s = concat (map quad MODEL_POSITIONS) \<and>
        (\<forall>k<length MODEL_POSITIONS.
           ud_originalScale (nodes s ! (objects s ! k)) = Some (config_scale (MODEL_POSITIONS ! k)) \<and>
           ud_originalPosition (nodes s ! (objects s ! k)) = Some (4 * k + 2) \<and>
           plain s ! (4 * k + 2) = config_position (MODEL_POSITIONS ! k) \<and>
           ud_originalRotation (nodes s ! (objects s ! k)) = Some (4 * k + 3) \<and>
           plain s ! (4 * k + 3) = config_rotation (MODEL_POSITIONS ! k)) \<and>
        (\<exists>s'. run later s = Some s' \<and> plain s' = plain s \<and> objects s' = objects s \<and>
           (\<forall>k<length MODEL_POSITIONS.
              ud_originalScale (nodes s' ! (objects s ! k)) = ud_originalScale (nodes s ! (objects s ! k)) \<and>
              ud_originalPosition (nodes s' ! (objects s ! k)) = ud_originalPosition (nodes s ! (objects s ! k)) \<and>
              ud_originalRotation (nodes s' ! (objects s ! k)) = ud_originalRotation (nodes s ! (objects s ! k)))))"
proof -
  obtain s where s: "run evs init = Some s" "inv s" using run_inv [OF inv_init] by blast
  have "loadedCount s = length MODEL_PATHS \<longrightarrow>
        plain s = concat (map quad MODEL_POSITIONS) \<and>
        (\<forall>k<length MODEL_POSITIONS.
           ud_originalScale (nodes s ! (objects s ! k)) = Some (config_scale (MODEL_POSITIONS ! k)) \<and>
           ud_originalPosition (nodes s ! (objects s ! k)) = Some (4 * k + 2) \<and>
           plain s ! (4 * k + 2) = config_position (MODEL_POSITIONS ! k) \<and>
           ud_originalRotation (nodes s ! (objects s ! k)) = Some (4 * k + 3) \<and>
           plain s ! (4 * k + 3) = config_rotation (MODEL_POSITIONS ! k)) \<and>
        (\<exists>s'. run later s = Some s' \<and> plain s' = plain s \<and> objects s' = objects s \<and>
           (\<forall>k<length MODEL_POSITIONS.
              ud_originalScale (nodes s' ! (objects s ! k)) = ud_originalScale (nodes s ! (objects s ! k)) \<and>
              ud_originalPosition (nodes s' ! (objects s ! k)) = ud_originalPosition (nodes s ! (objects s ! k)) \<and>
              ud_originalRotation (nodes s' ! (objects s ! k)) = ud_originalRotation (nodes s ! (objects s ! k))))"
  proof
    assume "loadedCount s = length MODEL_PATHS"
    then have l3: "3 \<le> loadedCount s" by simp
    then have b: "built s" using s(2) by (simp add: inv_def)
    have pl: "plain s = concat (map quad MODEL_POSITIONS)" using b by (simp add: built_def loop_inv_def)
    have a: "\<forall>k<length MODEL_POSITIONS.
           ud_originalScale (nodes s ! (objects s ! k)) = Some (config_scale (MODEL_POSITIONS ! k)) \<and>
           ud_originalPosition (nodes s ! (objects s ! k)) = Some (4 * k + 2) \<and>
           plain s ! (4 * k + 2) = config_position (MODEL_POSITIONS ! k) \<and>
           ud_originalRotation (nodes s ! (objects s ! k)) = Some (4 * k + 3) \<and>
           plain s ! (4 * k + 3) = config_rotation (MODEL_POSITIONS ! k)"
    proof (intro allI impI)
      fix k assume "k < length MODEL_POSITIONS"
      then have k: "k < 3" by simp
      have io: "inst_ok (nodes s ! (objects s ! k)) k" using built_instance(2) [OF b k] .
      show "ud_originalScale (nodes s ! (objects s ! k)) = Some (config_scale (MODEL_POSITIONS ! k)) \<and>
           ud_originalPosition (nodes s ! (objects s ! k)) = Some (4 * k + 2) \<and>
           plain s ! (4 * k + 2) = config_position (MODEL_POSITIONS ! k) \<and>
           ud_originalRotation (nodes s ! (objects s ! k)) = Some (4 * k + 3) \<and>
           plain s ! (4 * k + 3) = config_rotation (MODEL_POSITIONS ! k)"
        using io quad_nth [OF k] pl by (simp add: inst_ok_def Let_def)
    qed
    obtain s' where s': "run later s = Some s'" "frame s s'"
      using run_frame [OF s(2) l3, of later] by blast
    have ss: "same_static (nodes s) (nodes s')" using s'(2) by (simp add: frame_def)
    have c: "\<forall>k<length MODEL_POSITIONS.
              ud_originalScale (nodes s' ! (objects s ! k)) = ud_originalScale (nodes s ! (objects s ! k)) \<and>
              ud_originalPosition (nodes s' ! (objects s ! k)) = ud_originalPosition (nodes s ! (objects s ! k)) \<and>
              ud_originalRotation (nodes s' ! (objects s ! k)) = ud_originalRotation (nodes s ! (objects s ! k))"
    proof (intro allI impI)
      fix k assume "k < length MODEL_POSITIONS"
      then have k: "k < 3" by simp
      have v: "objects s ! k < length (nodes s)" using built_instance(1) [OF b k] .
      show "ud_originalScale (nodes s' ! (objects s ! k)) = ud_originalScale (nodes s ! (objects s ! k)) \<and>
              ud_originalPosition (nodes s' ! (objects s ! k)) = ud_originalPosition (nodes s ! (objects s ! k)) \<and>
              ud_originalRotation (nodes s' ! (objects s ! k)) = ud_originalRotation (nodes s ! (objects s ! k))"
        using same_static_fields [OF ss v] by simp
    qed
    show "plain s = concat (map quad MODEL_POSITIONS) \<and>
        (\<forall>k<length MODEL_POSITIONS.
           ud_originalScale (nodes s ! (objects s ! k)) = Some (config_scale (MODEL_POSITIONS ! k)) \<and>
           ud_originalPosition (nodes s ! (objects s ! k)) = Some (4 * k + 2) \<and>
           plain s ! (4 * k + 2) = config_position (MODEL_POSITIONS ! k) \<and>
           ud_originalRotation (nodes s ! (objects s ! k)) = Some (4 * k + 3) \<and>
           plain s ! (4 * k + 3) = config_rotation (MODEL_POSITIONS ! k)) \<and>
        (\<exists>s'. run later s = Some s' \<and> plain s' = plain s \<and> objects s' = objects s \<and>
           (\<forall>k<length MODEL_POSITIONS.
              ud_originalScale (nodes s' ! (objects s ! k)) = ud_originalScale (nodes s ! (objects s ! k)) \<and>
              ud_originalPosition (nodes s' ! (objects s ! k)) = ud_originalPosition (nodes s ! (objects s ! k)) \<and>
              ud_originalRotation (nodes s' ! (objects s ! k)) = ud_originalRotation (nodes s ! (objects s ! k))))"
      using pl a s' c by (auto simp: frame_def)
  qed
  then show ?thesis using s(1) by blast
qed

theorem originals_are_fixed_witness:
  "loadedCount (state_after demo_session) = length MODEL_PATHS \<and>
   n_scale (nodes (state_after demo_session) ! 2) = (5, 5, 5) \<and>
   objects (state_after demo_session) = [2, 5, 8] \<and>
   (\<exists>s. run demo_session init = Some s \<and>
      ud_originalScale (nodes s ! (objects s ! 0)) = Some 3 \<and>
      ud_originalPosition (nodes s ! (objects s ! 0)) = Some 2 \<and> plain s ! 2 = (-8, 0, 0) \<and>
      (\<exists>s'. run [MouseMove [], TweenComplete 0] s = Some s' \<and>
         ud_originalScale (nodes s' ! (objects s ! 0)) = Some 3))"
proof -
  let ?s = "state_after demo_session"
  have h1: "loadedCount ?s = length MODEL_PATHS" by code_simp
  have h2: "n_scale (nodes ?s ! 2) = (5, 5, 5)" by code_simp
  have h3: "objects ?s = [2, 5, 8]" by code_simp
  have r: "run demo_session init = Some ?s" by (rule run_state_after)
  have c: "config_scale (MODEL_POSITIONS ! 0) = 3" "config_position (MODEL_POSITIONS ! 0) = (-8, 0, 0)"
    by (simp_all add: config_scale_def config_position_def MODEL_POSITIONS_def js_or_def MODEL_SCALE_def)
  have k0: "(0::nat) < length MODEL_POSITIONS" by simp
  obtain s' where a:
    "\<forall>k<length MODEL_POSITIONS.
       ud_originalScale (nodes ?s ! (objects ?s ! k)) = Some (config_scale (MODEL_POSITIONS ! k)) \<and>
       ud_originalPosition (nodes ?s ! (objects ?s ! k)) = Some (4 * k + 2) \<and>
       plain ?s ! (4 * k + 2) = config_position (MODEL_POSITIONS ! k) \<and>
       ud_originalRotation (nodes ?s ! (objects ?s ! k)) = Some (4 * k + 3) \<and>
       plain ?s ! (4 * k + 3) = config_rotation (MODEL_POSITIONS ! k)"
    and b: "run [MouseMove [], TweenComplete 0] ?s = Some s'"
    "\<forall>k<length MODEL_POSITIONS.
       ud_originalScale (nodes s' ! (objects ?s ! k)) = ud_originalScale (nodes ?s ! (objects ?s ! k)) \<and>
       ud_originalPosition (nodes s' ! (objects ?s ! k)) = ud_originalPosition (nodes ?s ! (objects ?s ! k)) \<and>
       ud_originalRotation (nodes s' ! (objects ?s ! k)) = ud_originalRotation (nodes ?s ! (objects ?s ! k))"
    using originals_are_fixed [of demo_session "[MouseMove [], TweenComplete 0]"] h1 r by auto
  have a0: "ud_originalScale (nodes ?s ! (objects ?s ! 0)) = Some 3"
    "ud_originalPosition (nodes ?s ! (objects ?s ! 0)) = Some 2" "plain ?s ! 2 = (-8, 0, 0)"
    using a [rule_format, OF k0] c by (simp_all add: numeral_2_eq_2)
  have b0: "ud_originalScale (nodes s' ! (objects ?s ! 0)) = Some 3"
    using b(2) [rule_format, OF k0] a0 by simp
  show ?thesis using h1 h2 h3 r a0 b(1) b0 by blast
qed

end
